theory Spec2Isabelle
  imports Main "HOL-Library.AList" "HOL-Library.Multiset"
begin

section \<open>Characters and strings\<close>

text \<open>
  A JavaScript string is a sequence of code units; it is modelled as a \<open>string\<close>.
  The classes below are the ranges of the regular expressions of
  \<^verbatim>\<open>bin/generate-icons.js\<close>: \<^verbatim>\<open>[A-Z]\<close>, \<^verbatim>\<open>[a-z]\<close>, \<^verbatim>\<open>[0-9]\<close>.
  Case mapping is that of the ASCII letters; every other code unit is left alone.
  The source observes case mapping only on sanitised names (ASCII) and on the
  comparison with the ASCII suffixes \<^verbatim>\<open>.svg\<close> and \<^verbatim>\<open>.svelte\<close>.
\<close>

definition code :: "char \<Rightarrow> nat" where
  "code c = of_char c"

definition is_upper :: "char \<Rightarrow> bool" where
  "is_upper c \<longleftrightarrow> 65 \<le> code c \<and> code c \<le> 90"

definition is_lower :: "char \<Rightarrow> bool" where
  "is_lower c \<longleftrightarrow> 97 \<le> code c \<and> code c \<le> 122"

definition is_digit :: "char \<Rightarrow> bool" where
  "is_digit c \<longleftrightarrow> 48 \<le> code c \<and> code c \<le> 57"

definition is_dash :: "char \<Rightarrow> bool" where
  "is_dash c \<longleftrightarrow> c = CHR ''-''"

text \<open>The separators of \<^verbatim>\<open>split(/[-_]/)\<close>.\<close>

definition is_sep :: "char \<Rightarrow> bool" where
  "is_sep c \<longleftrightarrow> c = CHR ''-'' \<or> c = CHR ''_''"

text \<open>The class \<^verbatim>\<open>[a-zA-Z0-9_-]\<close>.\<close>

definition is_name_char :: "char \<Rightarrow> bool" where
  "is_name_char c \<longleftrightarrow> is_lower c \<or> is_upper c \<or> is_digit c \<or> is_sep c"

definition toLowerCase_char :: "char \<Rightarrow> char" where
  "toLowerCase_char c = (if is_upper c then char_of (code c + 32) else c)"

definition toUpperCase_char :: "char \<Rightarrow> char" where
  "toUpperCase_char c = (if is_lower c then char_of (code c - 32) else c)"

definition toLowerCase :: "string \<Rightarrow> string" where
  "toLowerCase s = map toLowerCase_char s"

text \<open>\<^verbatim>\<open>s.toLowerCase().endsWith(suffix)\<close>, for a lower-case ASCII suffix.\<close>

definition endsWith_ci :: "string \<Rightarrow> string \<Rightarrow> bool" where
  "endsWith_ci s suffix \<longleftrightarrow>
     length suffix \<le> length s \<and> toLowerCase (drop (length s - length suffix) s) = suffix"

section \<open>Name resolver\<close>

record icon =
  baseName :: string
  componentName :: string

subsection \<open>The replacements of \<^verbatim>\<open>sanitizeName\<close>, as the regular expressions scan\<close>

text \<open>
  \<^verbatim>\<open>.replace(/\.svg$/i, "")\<close> and \<^verbatim>\<open>.replace(/\.svelte$/i, "")\<close>: the match starts
  at the first position from which the rest of the string is exactly the suffix, in
  any case of its letters.
\<close>

fun strip_suffix_ci :: "string \<Rightarrow> string \<Rightarrow> string" where
  "strip_suffix_ci suffix [] = []"
| "strip_suffix_ci suffix (c # cs) =
     (if toLowerCase (c # cs) = suffix then [] else c # strip_suffix_ci suffix cs)"

text \<open>\<^verbatim>\<open>.replace(/[^a-zA-Z0-9_-]/g, "-")\<close>.\<close>

definition replace_invalid :: "string \<Rightarrow> string" where
  "replace_invalid s = map (\<lambda>c. if is_name_char c then c else CHR ''-'') s"

text \<open>
  \<^verbatim>\<open>.replace(/-{2,}/g, "-")\<close>: at a dash followed by a dash the greedy match takes
  the whole run and one dash replaces it.
\<close>

function collapse_dashes :: "string \<Rightarrow> string" where
  "collapse_dashes [] = []"
| "collapse_dashes (c # cs) =
     (if is_dash c \<and> (case cs of [] \<Rightarrow> False | d # _ \<Rightarrow> is_dash d)
      then CHR ''-'' # collapse_dashes (dropWhile is_dash cs)
      else c # collapse_dashes cs)"
  by pat_completeness auto
termination
  by (relation "measure length") (auto simp: length_dropWhile_le less_Suc_eq_le)

text \<open>
  \<^verbatim>\<open>.replace(/^-+|-+$/g, "")\<close>: the first alternative takes the dashes at the start,
  the second the first run of dashes that reaches the end of the string.
\<close>

fun strip_trailing_dashes :: "string \<Rightarrow> string" where
  "strip_trailing_dashes [] = []"
| "strip_trailing_dashes (c # cs) =
     (if is_dash c \<and> list_all is_dash cs then [] else c # strip_trailing_dashes cs)"

definition trim_dashes :: "string \<Rightarrow> string" where
  "trim_dashes s = strip_trailing_dashes (dropWhile is_dash s)"

text \<open>\<^verbatim>\<open>.split(/[-_]/)\<close>; the empty string splits into one empty part.\<close>

fun split_sep :: "string \<Rightarrow> string list" where
  "split_sep [] = [[]]"
| "split_sep (c # cs) =
     (if is_sep c then [] # split_sep cs
      else (case split_sep cs of [] \<Rightarrow> [[c]] | p # ps \<Rightarrow> (c # p) # ps))"

text \<open>\<^verbatim>\<open>part.charAt(0).toUpperCase() + part.slice(1)\<close>.\<close>

fun capitalize :: "string \<Rightarrow> string" where
  "capitalize [] = []"
| "capitalize (c # cs) = toUpperCase_char c # cs"

definition sanitize_baseName :: "string \<Rightarrow> string" where
  "sanitize_baseName name =
     toLowerCase (trim_dashes (collapse_dashes (replace_invalid (strip_suffix_ci ''.svg'' name))))"

definition pascal_case :: "string \<Rightarrow> string" where
  "pascal_case b = concat (map capitalize (split_sep b))"

definition sanitizeName :: "string \<Rightarrow> icon option" where
  "sanitizeName name =
     (let b = sanitize_baseName name
      in if b = [] then None
         else Some \<lparr>baseName = b, componentName = pascal_case b\<rparr>)"

subsection \<open>\<^verbatim>\<open>componentNameToBaseName\<close>\<close>

text \<open>
  \<^verbatim>\<open>.replace(/([A-Z])/g, (match, p1, offset) => (offset > 0 ? "-" : "") + match.toLowerCase())\<close>:
  the first argument is the offset of the character in the identifier.
\<close>

fun dash_upper :: "nat \<Rightarrow> string \<Rightarrow> string" where
  "dash_upper off [] = []"
| "dash_upper off (c # cs) =
     (if is_upper c
      then (if off > 0 then ''-'' else []) @ toLowerCase_char c # dash_upper (Suc off) cs
      else c # dash_upper (Suc off) cs)"

text \<open>\<^verbatim>\<open>.replace(/^-/, "")\<close>.\<close>

fun strip_leading_dash :: "string \<Rightarrow> string" where
  "strip_leading_dash [] = []"
| "strip_leading_dash (c # cs) = (if is_dash c then cs else c # cs)"

definition componentNameToBaseName :: "string \<Rightarrow> string option" where
  "componentNameToBaseName name =
     (if name = [] then None else Some (strip_leading_dash (dash_upper 0 name)))"

subsection \<open>Forms of the replacements that the proofs work with\<close>

text \<open>Strip a trailing case-insensitive \<^verbatim>\<open>.svg\<close> suffix.\<close>

definition strip_svg_spec :: "string \<Rightarrow> string" where
  "strip_svg_spec s = (if endsWith_ci s ''.svg'' then take (length s - 4) s else s)"

text \<open>Collapse runs of dashes to one.\<close>

fun squeeze_dashes :: "string \<Rightarrow> string" where
  "squeeze_dashes (a # b # cs) =
     (if is_dash a \<and> is_dash b then squeeze_dashes (b # cs) else a # squeeze_dashes (b # cs))"
| "squeeze_dashes cs = cs"

text \<open>Trim leading and trailing dashes.\<close>

definition trim_dashes_spec :: "string \<Rightarrow> string" where
  "trim_dashes_spec s = rev (dropWhile is_dash (rev (dropWhile is_dash s)))"

definition sanitize_baseName_spec :: "string \<Rightarrow> string" where
  "sanitize_baseName_spec name =
     toLowerCase (trim_dashes_spec (squeeze_dashes (replace_invalid (strip_svg_spec name))))"

text \<open>
  The caveat of the specification on the round trip: two adjacent upper-case letters in
  the component identifier.
\<close>

fun consecutive_upper :: "string \<Rightarrow> bool" where
  "consecutive_upper (a # b # cs) = ((is_upper a \<and> is_upper b) \<or> consecutive_upper (b # cs))"
| "consecutive_upper cs = False"

text \<open>Every dash of a base name is directly followed by a lower-case letter.\<close>

fun dashes_before_letters :: "string \<Rightarrow> bool" where
  "dashes_before_letters [] = True"
| "dashes_before_letters [c] = (\<not> is_dash c)"
| "dashes_before_letters (a # b # cs) =
     ((if is_dash a then is_lower b else True) \<and> dashes_before_letters (b # cs))"

subsection \<open>Auxiliary functions of the proofs\<close>

text \<open>
  \<open>pascal\<close> builds the component identifier in one pass; \<open>dash_all\<close> is
  \<open>dash_upper\<close> at a positive offset.
\<close>

fun pascal :: "bool \<Rightarrow> string \<Rightarrow> string" where
  "pascal up [] = []"
| "pascal up (c # cs) =
     (if is_sep c then pascal True cs
      else (if up then toUpperCase_char c else c) # pascal False cs)"

fun dash_all :: "string \<Rightarrow> string" where
  "dash_all [] = []"
| "dash_all (c # cs) =
     (if is_upper c then CHR ''-'' # toLowerCase_char c # dash_all cs else c # dash_all cs)"

definition slug_char :: "char \<Rightarrow> bool" where
  "slug_char c \<longleftrightarrow> is_lower c \<or> is_digit c \<or> is_dash c"

definition norm_char :: "char \<Rightarrow> bool" where
  "norm_char c \<longleftrightarrow> is_lower c \<or> is_digit c \<or> is_sep c"

subsection \<open>The contract of \<^verbatim>\<open>sanitizeName\<close> in the words of the specification\<close>

text \<open>
  The definitions of this subsection follow the sentence of the specification and use
  nothing of the model of the script: the characters \<^verbatim>\<open>[A-Za-z0-9_-]\<close> and the two
  alphabets are written out.
\<close>

definition contract_lower_letters :: string where
  "contract_lower_letters = ''abcdefghijklmnopqrstuvwxyz''"

definition contract_upper_letters :: string where
  "contract_upper_letters = ''ABCDEFGHIJKLMNOPQRSTUVWXYZ''"

definition contract_name_chars :: string where
  "contract_name_chars = contract_lower_letters @ contract_upper_letters @ ''0123456789_-''"

definition contract_lower :: "char \<Rightarrow> char" where
  "contract_lower c =
     (case map_of (zip contract_upper_letters contract_lower_letters) c of
        None \<Rightarrow> c | Some d \<Rightarrow> d)"

definition contract_upper :: "char \<Rightarrow> char" where
  "contract_upper c =
     (case map_of (zip contract_lower_letters contract_upper_letters) c of
        None \<Rightarrow> c | Some d \<Rightarrow> d)"

text \<open>Strip a trailing case-insensitive \<^verbatim>\<open>.svg\<close> suffix.\<close>

definition contract_strip_svg :: "string \<Rightarrow> string" where
  "contract_strip_svg s =
     (if 4 \<le> length s \<and> map contract_lower (drop (length s - 4) s) = ''.svg''
      then take (length s - 4) s else s)"

text \<open>Replace every character outside \<^verbatim>\<open>[A-Za-z0-9_-]\<close> with a dash.\<close>

definition contract_replace :: "string \<Rightarrow> string" where
  "contract_replace s = map (\<lambda>c. if c \<in> set contract_name_chars then c else CHR ''-'') s"

text \<open>Collapse runs of dashes to one.\<close>

fun contract_collapse :: "string \<Rightarrow> string" where
  "contract_collapse (a # b # cs) =
     (if a = CHR ''-'' \<and> b = CHR ''-'' then contract_collapse (b # cs)
      else a # contract_collapse (b # cs))"
| "contract_collapse cs = cs"

text \<open>Trim leading and trailing dashes.\<close>

definition contract_trim :: "string \<Rightarrow> string" where
  "contract_trim s =
     rev (dropWhile (\<lambda>c. c = CHR ''-'') (rev (dropWhile (\<lambda>c. c = CHR ''-'') s)))"

definition contract_baseName :: "string \<Rightarrow> string" where
  "contract_baseName name =
     map contract_lower (contract_trim (contract_collapse (contract_replace (contract_strip_svg name))))"

text \<open>Split on dashes and underscores: the segment before the first separator, then the rest.\<close>

definition contract_sep :: "char \<Rightarrow> bool" where
  "contract_sep c \<longleftrightarrow> c \<in> set ''-_''"

function contract_split :: "string \<Rightarrow> string list" where
  "contract_split s =
     (case dropWhile (\<lambda>c. \<not> contract_sep c) s of
        [] \<Rightarrow> [s]
      | sep # rest \<Rightarrow> takeWhile (\<lambda>c. \<not> contract_sep c) s # contract_split rest)"
  by pat_completeness auto
termination
proof (relation "measure length")
  show "wf (measure length)" by simp
next
  fix s :: string and sep rest
  assume "dropWhile (\<lambda>c. \<not> contract_sep c) s = sep # rest"
  then have "length (sep # rest) \<le> length s"
    by (metis length_dropWhile_le)
  then show "(rest, s) \<in> measure length" by simp
qed

declare contract_split.simps [simp del]

text \<open>Upper-case the first character of each segment and concatenate.\<close>

definition contract_componentName :: "string \<Rightarrow> string" where
  "contract_componentName b =
     concat (map (\<lambda>seg. case seg of [] \<Rightarrow> [] | c # cs \<Rightarrow> contract_upper c # cs) (contract_split b))"

section \<open>Existing-set scanner\<close>

text \<open>
  The components directory as \<^verbatim>\<open>getCurrentIconsFromComponents\<close> meets it: absent
  (\<^verbatim>\<open>pathExists\<close> is false), unreadable (\<^verbatim>\<open>readdir\<close> throws; the exception is
  caught and logged) or listed.
\<close>

datatype components_dir = Missing | Unreadable | Entries "string list"

text \<open>
  One round of the loop over the directory entries. \<^verbatim>\<open>existingIcons\<close> is a
  \<^verbatim>\<open>Map\<close>: \<^verbatim>\<open>set\<close> on a key that is present replaces the value in place, on a new
  key it appends, which is \<^const>\<open>AList.update\<close>.
\<close>

definition scan_entry :: "(string \<times> icon) list \<Rightarrow> string \<Rightarrow> (string \<times> icon) list" where
  "scan_entry existingIcons file =
     (if endsWith_ci file ''.svelte''
      then (let name = strip_suffix_ci ''.svelte'' file
            in case componentNameToBaseName name of
                 None \<Rightarrow> existingIcons
               | Some base \<Rightarrow>
                   if base = [] then existingIcons
                   else if name \<noteq> []
                     then AList.update name \<lparr>baseName = base, componentName = name\<rparr> existingIcons
                     else existingIcons)
      else existingIcons)"

definition getCurrentIconsFromComponents :: "components_dir \<Rightarrow> icon list" where
  "getCurrentIconsFromComponents dir =
     (case dir of
        Missing \<Rightarrow> []
      | Unreadable \<Rightarrow> []
      | Entries files \<Rightarrow> map snd (foldl scan_entry [] files))"

text \<open>The identity that the scanner gives to the stem of a component file.\<close>

definition identity_of :: "string \<Rightarrow> icon" where
  "identity_of stem = \<lparr>baseName = the (componentNameToBaseName stem), componentName = stem\<rparr>"

section \<open>Sorting and the type artifact\<close>

text \<open>
  \<^verbatim>\<open>Array.prototype.sort\<close> is stable: for a consistent comparison it returns the one
  stable sorted arrangement, which insertion from the right computes. The first
  argument is \<open>compare(a, b) \<le> 0\<close>.
\<close>

fun insert_sorted :: "('a \<Rightarrow> 'a \<Rightarrow> bool) \<Rightarrow> 'a \<Rightarrow> 'a list \<Rightarrow> 'a list" where
  "insert_sorted le x [] = [x]"
| "insert_sorted le x (y # ys) =
     (if le x y then x # y # ys else y # insert_sorted le x ys)"

definition sort_stable :: "('a \<Rightarrow> 'a \<Rightarrow> bool) \<Rightarrow> 'a list \<Rightarrow> 'a list" where
  "sort_stable le xs = foldr (insert_sorted le) xs []"

text \<open>
  \<^verbatim>\<open>icons.sort((a, b) => a.baseName.localeCompare(b.baseName))\<close>. The collation of
  \<^verbatim>\<open>localeCompare\<close> belongs to the platform, not to the repository: it is the
  parameter \<open>coll\<close>, with \<open>coll a b\<close> for \<^verbatim>\<open>a.localeCompare(b) <= 0\<close>.
\<close>

definition sort_icons :: "(string \<Rightarrow> string \<Rightarrow> bool) \<Rightarrow> icon list \<Rightarrow> icon list" where
  "sort_icons coll icons = sort_stable (\<lambda>a b. coll (baseName a) (baseName b)) icons"

text \<open>
  The order of \<^verbatim>\<open>sort()\<close> without a comparison function, and the ordinal order the
  specification names: strings compared code unit by code unit.
\<close>

fun code_unit_le :: "string \<Rightarrow> string \<Rightarrow> bool" where
  "code_unit_le [] ys = True"
| "code_unit_le (x # xs) [] = False"
| "code_unit_le (x # xs) (y # ys) =
     (code x < code y \<or> (code x = code y \<and> code_unit_le xs ys))"

text \<open>
  The order that \<^verbatim>\<open>localeCompare\<close> has by default in Node, the root collation of ICU,
  on the characters of a sanitised base name: the underscore comes before the hyphen,
  the hyphen before the digits, the digits before the letters, and strings are
  compared weight by weight, a prefix before its extensions. This is a fact of the
  platform, not code of the repository; no theorem about the script depends on it,
  and it serves as the instance of \<open>coll\<close> in the examples. Characters outside
  \<^verbatim>\<open>[a-z0-9_-]\<close>, which the examples do not use, are put after the letters by code
  unit.
\<close>

definition collation_weight :: "char \<Rightarrow> nat" where
  "collation_weight c =
     (if c = CHR ''_'' then 0
      else if c = CHR ''-'' then 1
      else if is_digit c then 2 + (code c - 48)
      else if is_lower c then 12 + (code c - 97)
      else 256 + code c)"

fun localeCompare_le :: "string \<Rightarrow> string \<Rightarrow> bool" where
  "localeCompare_le [] ys = True"
| "localeCompare_le (x # xs) [] = False"
| "localeCompare_le (x # xs) (y # ys) =
     (collation_weight x < collation_weight y
      \<or> (collation_weight x = collation_weight y \<and> localeCompare_le xs ys))"

text \<open>\<^verbatim>\<open>[...new Set(xs)]\<close>: the first occurrence of each value, in order.\<close>

definition new_Set :: "'a list \<Rightarrow> 'a list" where
  "new_Set xs = foldl (\<lambda>acc x. if x \<in> set acc then acc else acc @ [x]) [] xs"

fun join :: "string \<Rightarrow> string list \<Rightarrow> string" where
  "join sep [] = []"
| "join sep [x] = x"
| "join sep (x # y # ys) = x @ sep @ join sep (y # ys)"

definition nl :: string where
  "nl = [CHR 0x0A]"

definition quote :: string where
  "quote = [CHR 0x27]"

text \<open>One line of \<^verbatim>\<open>iconMapContent\<close>.\<close>

definition iconMapLine :: "icon \<Rightarrow> string" where
  "iconMapLine icon = ''  '' @ quote @ baseName icon @ quote @ '': '' @ quote @ componentName icon
     @ quote @ '',''"

definition iconMapContent :: "icon list \<Rightarrow> string" where
  "iconMapContent icons = join nl (map iconMapLine icons)"

definition uniqueIconBaseNames :: "icon list \<Rightarrow> string list" where
  "uniqueIconBaseNames icons = sort_stable code_unit_le (new_Set (map baseName icons))"

text \<open>
  The template literal \<^verbatim>\<open>typeContent\<close>, from the first \<^verbatim>\<open>export\<close> on; the two comment
  lines before it are the parameter \<open>header\<close>.
\<close>

definition typeContent :: "string \<Rightarrow> icon list \<Rightarrow> string" where
  "typeContent header icons =
     header @ ''export type SvgName = '' @ nl @ ''  | '' @ quote
       @ join (quote @ nl @ ''  | '' @ quote) (uniqueIconBaseNames icons)
       @ quote @ '';'' @ nl @ nl
       @ ''export const iconMap: Record<SvgName, string> = {'' @ nl
       @ iconMapContent icons @ nl @ ''};'' @ nl"

text \<open>The comment lines of \<^verbatim>\<open>bin/generate-icons.js\<close> and of the second copy of the script.\<close>

definition header_bin :: string where
  "header_bin = ''// Auto-generated by svelte-svg-gen'' @ nl
     @ ''// Run npx svelte-svg-gen -r to regenerate.'' @ nl @ nl"

definition header_part000 :: string where
  "header_part000 = ''// Auto-generated by @xavialyra/svelte-svg-gen'' @ nl
     @ ''//Run npx @xavialyra/svelte-svg-gen -r to regenerate.'' @ nl @ nl"

section \<open>Regeneration\<close>

text \<open>
  The files of the output directory that the script writes beside the components: the
  type artifact \<^verbatim>\<open>SvgName.ts\<close> and the loader \<^verbatim>\<open>SvgIcon.svelte\<close>. A write that throws
  is caught and logged, and the next write is still attempted; \<open>write_fails\<close> says
  which paths cannot be written. The text of the loader comes from a template outside
  the script and is the parameter \<open>loader\<close>.
\<close>

definition write_outputs :: "(string \<Rightarrow> bool) \<Rightarrow> (string \<times> string) list \<Rightarrow> (string \<times> string) list" where
  "write_outputs write_fails outs = filter (\<lambda>(p, c). \<not> write_fails p) outs"

text \<open>\<^verbatim>\<open>regenerateFilesFromComponents\<close> of \<^verbatim>\<open>bin/generate-icons.js\<close>: the files written.\<close>

definition regenerateFilesFromComponents ::
  "(string \<Rightarrow> string \<Rightarrow> bool) \<Rightarrow> (string \<Rightarrow> bool) \<Rightarrow> string \<Rightarrow> components_dir
     \<Rightarrow> (string \<times> string) list" where
  "regenerateFilesFromComponents coll write_fails loader dir =
     (let icons = getCurrentIconsFromComponents dir
      in if icons = [] then []
         else write_outputs write_fails
                [(''SvgName.ts'', typeContent header_bin (sort_icons coll icons)),
                 (''SvgIcon.svelte'', loader)])"

datatype js_error = ReferenceError

text \<open>
  \<^verbatim>\<open>regenerateFilesFromComponents\<close> of the second copy of the script. It computes
  \<^verbatim>\<open>uniqueIconBaseNames\<close> from \<^verbatim>\<open>allIcons\<close>, a name bound only inside \<^verbatim>\<open>run\<close>: reading it
  throws before anything is written. This copy has no loader step.
\<close>

definition regenerateFilesFromComponents_part000 ::
  "(string \<Rightarrow> string \<Rightarrow> bool) \<Rightarrow> (string \<Rightarrow> bool) \<Rightarrow> components_dir
     \<Rightarrow> js_error + (string \<times> string) list" where
  "regenerateFilesFromComponents_part000 coll write_fails dir =
     (let icons = getCurrentIconsFromComponents dir
      in if icons = [] then Inr []
         else (let sorted = sort_icons coll icons;
                   content = iconMapContent sorted
               in Inl ReferenceError))"

section \<open>Icon set merger\<close>

text \<open>
  The second copy of the script combines the icons found on disk with the icons of
  the run in a \<^verbatim>\<open>Map\<close> keyed by component name: \<^verbatim>\<open>existingIcons\<close> first, then
  \<^verbatim>\<open>newlyGeneratedIcons\<close>, and sorts the values by base name.
\<close>

definition set_icon :: "(string \<times> icon) list \<Rightarrow> icon \<Rightarrow> (string \<times> icon) list" where
  "set_icon m icon = AList.update (componentName icon) icon m"

definition allIconsMap :: "icon list \<Rightarrow> icon list \<Rightarrow> (string \<times> icon) list" where
  "allIconsMap existingIcons newlyGeneratedIcons =
     foldl set_icon (foldl set_icon [] existingIcons) newlyGeneratedIcons"

definition merge_icons :: "(string \<Rightarrow> string \<Rightarrow> bool) \<Rightarrow> icon list \<Rightarrow> icon list \<Rightarrow> icon list" where
  "merge_icons coll existingIcons newlyGeneratedIcons =
     sort_icons coll (map snd (allIconsMap existingIcons newlyGeneratedIcons))"

section \<open>Sources and their resolution\<close>

datatype source_type = File | Url | Direct

text \<open>
  A pending source. A field the script leaves out (\<^verbatim>\<open>path\<close> of a pasted or fetched
  source, \<^verbatim>\<open>content\<close> of a file) is the empty string, which JavaScript's truth test
  treats as it treats \<^verbatim>\<open>undefined\<close>.
\<close>

record source = icon +
  stype :: source_type
  origin :: string
  path :: string
  content :: string

record optimized =
  opt_error :: string
  opt_data :: string

datatype path_probe = NotFound | StatThrows | IsFile string | IsDirectory "string list" | IsOther

text \<open>
  What the script asks of the outside world: reading a file (\<open>None\<close> when it throws),
  the optimiser (\<open>None\<close> when it throws), the component template, the checks and writes
  that throw, fetching a URL (\<^verbatim>\<open>fetchSvgContent\<close> with its \<^verbatim>\<open>potentialName\<close>; \<open>None\<close> for
  a failed fetch), the kind of an input path with its resolved absolute path or the
  files the glob finds under it, and whether preparing the output directories throws.
\<close>

record env =
  readFile :: "string \<Rightarrow> string option"
  optimize :: "string \<Rightarrow> string \<Rightarrow> optimized option"
  createSvelteIconComponent :: "string \<Rightarrow> string \<Rightarrow> string"
  pathExists_throws :: "string \<Rightarrow> bool"
  writeFile_throws :: "string \<Rightarrow> bool"
  fetchSvgContent :: "string \<Rightarrow> (string \<times> string) option"
  probe :: "string \<Rightarrow> path_probe"
  prepare_throws :: bool


definition endsWith :: "string \<Rightarrow> string \<Rightarrow> bool" where
  "endsWith s suffix \<longleftrightarrow> length suffix \<le> length s \<and> drop (length s - length suffix) s = suffix"










section \<open>Generation of the components\<close>

datatype gen_error = ReadFailed | OptimizeThrew | OptimizeError string | NoData

definition processSvgSource :: "env \<Rightarrow> source \<Rightarrow> string \<Rightarrow> gen_error + string" where
  "processSvgSource e s baseClass =
     (case (case stype s of
              File \<Rightarrow> readFile e (path s)
            | Url \<Rightarrow> Some (content s)
            | Direct \<Rightarrow> Some (content s)) of
        None \<Rightarrow> Inl ReadFailed
      | Some svgContent \<Rightarrow>
          (case optimize e svgContent (path s) of
             None \<Rightarrow> Inl OptimizeThrew
           | Some r \<Rightarrow>
               if opt_error r \<noteq> [] then Inl (OptimizeError (opt_error r))
               else if opt_data r = [] then Inl NoData
               else Inr (createSvelteIconComponent e (opt_data r) baseClass)))"

text \<open>
  The state of a run: the files of the components directory (name and text, as an
  association list in the order of the directory), and the variables of \<^verbatim>\<open>run\<close>.
\<close>

record run_state =
  files :: "(string \<times> string) list"
  newlyGeneratedIcons :: "icon list"
  conflicts :: "source list"
  successCount :: nat
  errorCount :: nat
  skipCount :: nat
  processedComponentNamesInRun :: "string set"

definition initial_state :: "(string \<times> string) list \<Rightarrow> run_state" where
  "initial_state fs =
     \<lparr>files = fs, newlyGeneratedIcons = [], conflicts = [], successCount = 0, errorCount = 0,
      skipCount = 0, processedComponentNamesInRun = {}\<rparr>"

definition outputSveltePath :: "source \<Rightarrow> string" where
  "outputSveltePath s = componentName s @ ''.svelte''"

definition failed :: "run_state \<Rightarrow> run_state" where
  "failed st = st\<lparr>errorCount := errorCount st + 1\<rparr>"

text \<open>
  The \<^verbatim>\<open>try\<close> block that renders a source and writes its component; every exception
  in it is caught and counted.
\<close>

definition generate_component :: "env \<Rightarrow> string \<Rightarrow> run_state \<Rightarrow> source \<Rightarrow> run_state" where
  "generate_component e baseClass st s =
     (case processSvgSource e s baseClass of
        Inl err \<Rightarrow> failed st
      | Inr text \<Rightarrow>
          if writeFile_throws e (outputSveltePath s) then failed st
          else st\<lparr>files := AList.update (outputSveltePath s) text (files st),
                  newlyGeneratedIcons := newlyGeneratedIcons st
                    @ [\<lparr>baseName = baseName s, componentName = componentName s\<rparr>],
                  processedComponentNamesInRun :=
                    insert (componentName s) (processedComponentNamesInRun st),
                  successCount := successCount st + 1\<rparr>)"

text \<open>One round of the loop over \<^verbatim>\<open>sourcesToProcess\<close> in \<^verbatim>\<open>bin/generate-icons.js\<close>.\<close>

definition process_source :: "env \<Rightarrow> bool \<Rightarrow> string \<Rightarrow> run_state \<Rightarrow> source \<Rightarrow> run_state" where
  "process_source e cleanFlag baseClass st s =
     (if componentName s \<in> processedComponentNamesInRun st then failed st
      else if \<not> cleanFlag \<and> pathExists_throws e (outputSveltePath s) then failed st
      else if \<not> cleanFlag \<and> outputSveltePath s \<in> set (map fst (files st))
        then st\<lparr>conflicts := conflicts st @ [s]\<rparr>
      else generate_component e baseClass st s)"

text \<open>One round of the loop over \<^verbatim>\<open>conflicts\<close> once the operator has accepted.\<close>

definition overwrite_conflict :: "env \<Rightarrow> string \<Rightarrow> run_state \<Rightarrow> source \<Rightarrow> run_state" where
  "overwrite_conflict e baseClass st s =
     (if componentName s \<in> processedComponentNamesInRun st then st
      else generate_component e baseClass st s)"

text \<open>
  The conflicts are put to the operator once, and only when there are any;
  \<open>overwrite\<close> is the answer.
\<close>

definition handle_conflicts :: "env \<Rightarrow> string \<Rightarrow> bool \<Rightarrow> run_state \<Rightarrow> run_state" where
  "handle_conflicts e baseClass overwrite st =
     (if conflicts st = [] then st
      else if overwrite then foldl (overwrite_conflict e baseClass) st (conflicts st)
      else st\<lparr>skipCount := length (conflicts st)\<rparr>)"

text \<open>The loop over the sources, and the whole generation step.\<close>

definition process_all ::
  "env \<Rightarrow> bool \<Rightarrow> string \<Rightarrow> (string \<times> string) list \<Rightarrow> source list \<Rightarrow> run_state" where
  "process_all e cleanFlag baseClass fs sources =
     foldl (process_source e cleanFlag baseClass) (initial_state fs) sources"

definition generate_all ::
  "env \<Rightarrow> bool \<Rightarrow> string \<Rightarrow> bool \<Rightarrow> (string \<times> string) list \<Rightarrow> source list \<Rightarrow> run_state" where
  "generate_all e cleanFlag baseClass overwrite fs sources =
     handle_conflicts e baseClass overwrite (process_all e cleanFlag baseClass fs sources)"



section \<open>The aggregate files and the run\<close>


text \<open>The second copy merges the scan with the icons of the run.\<close>

definition aggregate_part000 ::
  "(string \<Rightarrow> string \<Rightarrow> bool) \<Rightarrow> bool \<Rightarrow> (string \<Rightarrow> bool) \<Rightarrow> string \<Rightarrow> run_state
     \<Rightarrow> (string \<times> string) list" where
  "aggregate_part000 coll cleanFlag write_fails loader st =
     (if newlyGeneratedIcons st = []
         \<and> \<not> list_ex (\<lambda>f. endsWith f ''.svelte'') (map fst (files st)) then []
      else (let existingIcons =
                  (if cleanFlag then []
                   else getCurrentIconsFromComponents (Entries (map fst (files st))));
                allIcons = map snd (allIconsMap existingIcons (newlyGeneratedIcons st))
            in if allIcons = [] then []
               else write_outputs write_fails
                      [(''SvgName.ts'', typeContent header_part000 (sort_icons coll allIcons)),
                       (''SvgIcon.svelte'', loader)]))"

record argv =
  input :: "string list"
  clean :: bool
  regenerate :: bool
  baseClass :: string





text \<open>
  An outside world for the examples: nothing can be read, fetched or found, the
  optimiser throws on the text \<^verbatim>\<open>bad\<close> and returns any other text as it is, the
  template is the optimised text, and no check or write throws.
\<close>

definition example_env :: env where
  "example_env =
     \<lparr>readFile = (\<lambda>p. None),
      optimize = (\<lambda>text p. if text = ''bad'' then None else Some \<lparr>opt_error = [], opt_data = text\<rparr>),
      createSvelteIconComponent = (\<lambda>svg cls. svg),
      pathExists_throws = (\<lambda>p. False),
      writeFile_throws = (\<lambda>p. False),
      fetchSvgContent = (\<lambda>u. None),
      probe = (\<lambda>p. NotFound),
      prepare_throws = False\<rparr>"

definition pasted :: "string \<Rightarrow> string \<Rightarrow> string \<Rightarrow> source" where
  "pasted b c text =
     \<lparr>baseName = b, componentName = c, stype = Direct, origin = [], path = [], content = text\<rparr>"

section \<open>Invariants of a run\<close>

text \<open>
  \<open>kept n st st'\<close>: the component name \<open>n\<close> is among the names processed in
  \<open>st'\<close> and its file is as in \<open>st\<close>.
\<close>

definition kept :: "string \<Rightarrow> run_state \<Rightarrow> run_state \<Rightarrow> bool" where
  "kept n st st' \<longleftrightarrow>
     n \<in> processedComponentNamesInRun st' \<and>
     map_of (files st') (n @ ''.svelte'') = map_of (files st) (n @ ''.svelte'')"

text \<open>The record that the run pushes on \<^verbatim>\<open>newlyGeneratedIcons\<close> for a source.\<close>

definition icon_of :: "source \<Rightarrow> icon" where
  "icon_of s = \<lparr>baseName = baseName s, componentName = componentName s\<rparr>"

text \<open>
  The names processed in the run are the names of the icons generated in it, these
  come from the sources, and their files exist.
\<close>

definition generated_inv :: "source list \<Rightarrow> run_state \<Rightarrow> bool" where
  "generated_inv srcs st \<longleftrightarrow>
     processedComponentNamesInRun st = componentName ` set (newlyGeneratedIcons st) \<and>
     set (newlyGeneratedIcons st) \<subseteq> icon_of ` set srcs \<and>
     (\<forall>n\<in>processedComponentNamesInRun st. map_of (files st) (n @ ''.svelte'') \<noteq> None)"




section \<open>Properties of the name resolver\<close>

lemma code_dash: "code CHR ''-'' = 45" and code_us: "code CHR ''_'' = 95"
  by (simp_all add: code_def)

lemma is_dash_code: "is_dash c \<longleftrightarrow> code c = 45"
  unfolding is_dash_def code_def
  by (metis code_dash code_def of_char_eq_iff)

lemma is_sep_code: "is_sep c \<longleftrightarrow> code c = 45 \<or> code c = 95"
  unfolding is_sep_def code_def
  by (metis code_dash code_us code_def of_char_eq_iff)

lemma code_char_of: "n < 256 \<Longrightarrow> code (char_of n) = n"
  by (simp add: code_def)

lemma char_of_code: "char_of (code c) = c"
  by (simp add: code_def)

lemma lower_upper:
  assumes "is_lower c"
  shows "is_upper (toUpperCase_char c)" and "toLowerCase_char (toUpperCase_char c) = c"
proof -
  from assms have r: "97 \<le> code c" "code c \<le> 122"
    by (simp_all add: is_lower_def)
  then have k: "code (char_of (code c - 32)) = code c - 32"
    by (simp add: code_char_of)
  from assms have u: "toUpperCase_char c = char_of (code c - 32)"
    by (simp add: toUpperCase_char_def)
  show up: "is_upper (toUpperCase_char c)"
    using r unfolding u k is_upper_def by arith
  have "toLowerCase_char (toUpperCase_char c) = char_of (code c - 32 + 32)"
    using up by (simp add: toLowerCase_char_def u k)
  also have "\<dots> = c"
    using r by (simp add: char_of_code)
  finally show "toLowerCase_char (toUpperCase_char c) = c" .
qed

lemma upper_lower: "is_upper c \<Longrightarrow> is_lower (toLowerCase_char c)"
  by (simp add: is_lower_def is_upper_def toLowerCase_char_def code_char_of)

lemma upper_lower_neq: "is_upper c \<Longrightarrow> \<not> is_sep (toLowerCase_char c) \<and> \<not> is_upper (toLowerCase_char c)"
  using upper_lower[of c] by (auto simp: is_lower_def is_sep_code is_upper_def)

lemma class_disjoint:
  "is_lower c \<Longrightarrow> \<not> is_upper c \<and> \<not> is_digit c \<and> \<not> is_sep c \<and> \<not> is_dash c"
  "is_upper c \<Longrightarrow> \<not> is_lower c \<and> \<not> is_digit c \<and> \<not> is_sep c \<and> \<not> is_dash c"
  "is_digit c \<Longrightarrow> \<not> is_lower c \<and> \<not> is_upper c \<and> \<not> is_sep c \<and> \<not> is_dash c"
  "is_dash c \<Longrightarrow> \<not> is_lower c \<and> \<not> is_upper c \<and> \<not> is_digit c \<and> is_sep c"
  by (auto simp: is_lower_def is_upper_def is_digit_def is_sep_code is_dash_code)

lemma squeeze_dash_run:
  "is_dash d \<Longrightarrow> squeeze_dashes (d # ds) = d # squeeze_dashes (dropWhile is_dash ds)"
proof (induction ds arbitrary: d)
  case Nil
  show ?case by simp
next
  case (Cons e es)
  then show ?case by (cases "is_dash e") (auto simp: is_dash_def)
qed

lemma collapse_dashes_eq: "collapse_dashes s = squeeze_dashes s"
proof (induction s rule: collapse_dashes.induct)
  case 1
  show ?case by simp
next
  case (2 c cs)
  show ?case
  proof (cases cs)
    case Nil
    then show ?thesis by simp
  next
    case (Cons d ds)
    show ?thesis
    proof (cases "is_dash c \<and> is_dash d")
      case True
      then have "collapse_dashes (c # cs) = CHR ''-'' # squeeze_dashes (dropWhile is_dash ds)"
        using 2 Cons by simp
      also have "\<dots> = squeeze_dashes (d # ds)"
        using True squeeze_dash_run[of d ds] by (simp add: is_dash_def)
      finally show ?thesis using True Cons by simp
    next
      case False
      then show ?thesis using 2 Cons by auto
    qed
  qed
qed

lemma strip_trailing_dashes_eq: "strip_trailing_dashes t = rev (dropWhile is_dash (rev t))"
  by (induction t) (auto simp: dropWhile_append list_all_iff)

lemma trim_dashes_eq: "trim_dashes s = trim_dashes_spec s"
  by (simp add: trim_dashes_def trim_dashes_spec_def strip_trailing_dashes_eq)


lemma suffix_len: "toLowerCase zs = suffix \<Longrightarrow> length zs = length suffix"
  by (auto simp: toLowerCase_def)

lemma strip_suffix_match: "toLowerCase ys = suffix \<Longrightarrow> strip_suffix_ci suffix (xs @ ys) = xs"
proof (induction xs)
  case Nil
  then show ?case by (cases ys) auto
next
  case (Cons x xs)
  have "toLowerCase (x # xs @ ys) \<noteq> suffix"
    using suffix_len[of "x # xs @ ys" suffix] suffix_len[OF Cons.prems] by auto
  then show ?case using Cons by simp
qed

lemma strip_suffix_nomatch:
  "(\<And>k. toLowerCase (drop k s) \<noteq> suffix) \<Longrightarrow> strip_suffix_ci suffix s = s"
proof (induction s)
  case Nil
  show ?case by simp
next
  case (Cons c cs)
  have "toLowerCase (c # cs) \<noteq> suffix" using Cons.prems[of 0] by simp
  moreover have "strip_suffix_ci suffix cs = cs"
  proof (rule Cons.IH)
    fix k show "toLowerCase (drop k cs) \<noteq> suffix" using Cons.prems[of "Suc k"] by simp
  qed
  ultimately show ?case by simp
qed

lemma strip_suffix_ci_eq:
  "strip_suffix_ci suffix s =
     (if endsWith_ci s suffix then take (length s - length suffix) s else s)"
proof (cases "endsWith_ci s suffix")
  case True
  then have m: "toLowerCase (drop (length s - length suffix) s) = suffix"
    by (simp add: endsWith_ci_def)
  have "strip_suffix_ci suffix (take (length s - length suffix) s @ drop (length s - length suffix) s)
          = take (length s - length suffix) s"
    by (rule strip_suffix_match[OF m])
  then show ?thesis using True by simp
next
  case False
  have "strip_suffix_ci suffix s = s"
  proof (rule strip_suffix_nomatch)
    fix k show "toLowerCase (drop k s) \<noteq> suffix"
    proof
      assume h: "toLowerCase (drop k s) = suffix"
      from suffix_len[OF h] have "length s - k = length suffix" by simp
      then have le: "length suffix \<le> length s" by arith
      have "drop k s = drop (length s - length suffix) s"
      proof (cases "k \<le> length s")
        case True
        with \<open>length s - k = length suffix\<close> have "k = length s - length suffix" by arith
        then show ?thesis by simp
      next
        case False
        with \<open>length s - k = length suffix\<close> show ?thesis by simp
      qed
      with h le False show False by (simp add: endsWith_ci_def)
    qed
  qed
  then show ?thesis using False by simp
qed

lemma strip_svg_eq: "strip_suffix_ci ''.svg'' s = strip_svg_spec s"
proof -
  have "length ''.svg'' = (4::nat)" by simp
  then show ?thesis unfolding strip_svg_spec_def strip_suffix_ci_eq by (simp only:)
qed


lemma split_sep_nonempty: "split_sep s \<noteq> []"
  by (induction s) (auto split: list.splits)

lemma pascal_split:
  "split_sep s = p # ps \<Longrightarrow>
     pascal False s = p @ concat (map capitalize ps) \<and>
     pascal True s = capitalize p @ concat (map capitalize ps)"
proof (induction s arbitrary: p ps)
  case Nil
  then show ?case by simp
next
  case (Cons c cs)
  obtain q qs where q: "split_sep cs = q # qs"
    using split_sep_nonempty[of cs] by (cases "split_sep cs") auto
  from Cons.IH[OF q] Cons.prems show ?case
    by (auto simp: q split: if_splits)
qed

lemma pascal_case_eq: "pascal_case b = pascal True b"
proof -
  obtain q qs where q: "split_sep b = q # qs"
    using split_sep_nonempty[of b] by (cases "split_sep b") auto
  with pascal_split[OF q] show ?thesis by (simp add: pascal_case_def)
qed

lemma dash_upper_pos: "0 < off \<Longrightarrow> dash_upper off s = dash_all s"
  by (induction s arbitrary: off) auto

lemma slug_char_cases:
  assumes "slug_char c"
  obtains (lower) "is_lower c" "\<not> is_sep c" "\<not> is_upper c" "\<not> is_dash c"
  | (digit) "is_digit c" "\<not> is_sep c" "\<not> is_upper c" "\<not> is_lower c" "\<not> is_dash c"
  | (dash) "is_dash c" "is_sep c" "\<not> is_lower c"
  using assms class_disjoint[of c] unfolding slug_char_def by blast

lemma dash_all_pascal_no_double_dash:
  "list_all slug_char cs \<Longrightarrow> dash_all (pascal up cs) \<noteq> a # b # rest \<or> \<not> is_dash a \<or> \<not> is_dash b"
proof (induction cs arbitrary: up)
  case Nil
  then show ?case by simp
next
  case (Cons c cs)
  then have c: "slug_char c" and cs: "list_all slug_char cs" by simp_all
  from c show ?case
  proof (cases rule: slug_char_cases)
    case lower
    then show ?thesis using lower_upper[of c] class_disjoint(1)[of c]
      by (cases up) (auto simp: is_dash_def)
  next
    case digit
    then show ?thesis by (auto simp: toUpperCase_char_def)
  next
    case dash
    then show ?thesis using Cons.IH[OF cs, of True] by simp
  qed
qed

lemma dbl_tail: "dashes_before_letters (c # cs) \<Longrightarrow> dashes_before_letters cs"
  by (cases cs) auto

lemma tail_recovered:
  "list_all slug_char cs \<Longrightarrow> dash_all (pascal False cs) = cs \<longleftrightarrow> dashes_before_letters cs"
proof (induction cs rule: dashes_before_letters.induct)
  case 1
  show ?case by simp
next
  case (2 c)
  then have "slug_char c" by simp
  then show ?case by (cases rule: slug_char_cases) auto
next
  case (3 a b cs)
  then have a: "slug_char a" and b: "slug_char b" and cs: "list_all slug_char cs"
    and IH: "dash_all (pascal False (b # cs)) = b # cs \<longleftrightarrow> dashes_before_letters (b # cs)"
    by simp_all
  from a show ?case
  proof (cases rule: slug_char_cases)
    case lower
    then show ?thesis using IH by auto
  next
    case digit
    then show ?thesis using IH by auto
  next
    case dash
    note da = this
    from b show ?thesis
    proof (cases rule: slug_char_cases)
      case lower
      then show ?thesis using da IH lower_upper[of b] by (auto simp: is_dash_def)
    next
      case digit
      then show ?thesis using da by (auto simp: toUpperCase_char_def is_dash_def)
    next
      case dash
      then show ?thesis
        using da dash_all_pascal_no_double_dash[OF cs, of True a b cs] by auto
    qed
  qed
qed


lemma sanitize_baseName_eq: "sanitize_baseName name = sanitize_baseName_spec name"
  by (simp add: sanitize_baseName_def sanitize_baseName_spec_def strip_svg_eq collapse_dashes_eq
      trim_dashes_eq)

lemma set_squeeze_dashes: "set (squeeze_dashes s) \<subseteq> set s"
  by (induction s rule: squeeze_dashes.induct) auto

lemma set_trim_dashes_spec: "set (trim_dashes_spec s) \<subseteq> set s"
  by (auto simp: trim_dashes_spec_def dest!: set_dropWhileD)

lemma name_char_replace_invalid: "list_all is_name_char (replace_invalid s)"
  by (induction s) (auto simp: replace_invalid_def is_name_char_def is_sep_def)

lemma norm_char_lower: "is_name_char c \<Longrightarrow> norm_char (toLowerCase_char c)"
  using upper_lower[of c] by (auto simp: is_name_char_def norm_char_def toLowerCase_char_def)

lemma sanitize_baseName_chars: "list_all norm_char (sanitize_baseName name)"
proof -
  let ?t = "trim_dashes_spec (squeeze_dashes (replace_invalid (strip_svg_spec name)))"
  have "set ?t \<subseteq> set (replace_invalid (strip_svg_spec name))"
    using set_trim_dashes_spec set_squeeze_dashes by blast
  then have "list_all is_name_char ?t"
    using name_char_replace_invalid[of "strip_svg_spec name"] by (auto simp: list_all_iff)
  then show ?thesis
    by (auto simp: sanitize_baseName_eq sanitize_baseName_spec_def toLowerCase_def list_all_iff
        norm_char_lower)
qed

lemma hd_strip_trailing_dashes:
  "strip_trailing_dashes u \<noteq> [] \<Longrightarrow> hd (strip_trailing_dashes u) = hd u"
  by (cases u) (auto split: if_splits)

lemma dash_lower: "is_dash (toLowerCase_char c) \<longleftrightarrow> is_dash c"
  using upper_lower[of c] class_disjoint(1)[of "toLowerCase_char c"] class_disjoint(2)[of c]
  by (auto simp: toLowerCase_char_def)

lemma sanitize_baseName_hd:
  assumes "sanitize_baseName name \<noteq> []"
  shows "\<not> is_dash (hd (sanitize_baseName name))"
proof -
  let ?u = "dropWhile is_dash (collapse_dashes (replace_invalid (strip_suffix_ci ''.svg'' name)))"
  from assms have ne: "strip_trailing_dashes ?u \<noteq> []"
    by (simp add: sanitize_baseName_def trim_dashes_def toLowerCase_def)
  then have "?u \<noteq> []" by (metis strip_trailing_dashes.simps(1))
  then have "\<not> is_dash (hd ?u)" by (rule hd_dropWhile)
  then have "\<not> is_dash (hd (strip_trailing_dashes ?u))"
    using hd_strip_trailing_dashes[OF ne] by simp
  then show ?thesis using ne
    by (simp add: sanitize_baseName_def trim_dashes_def toLowerCase_def hd_map dash_lower)
qed

lemma no_underscore_pascal: "CHR ''_'' \<notin> set (pascal up s)"
proof (induction s arbitrary: up)
  case Nil
  show ?case by simp
next
  case (Cons c cs)
  have "\<not> is_sep c \<Longrightarrow> toUpperCase_char c \<noteq> CHR ''_''"
    using lower_upper(1)[of c] class_disjoint(2)[of "toUpperCase_char c"]
    by (auto simp: toUpperCase_char_def is_sep_def)
  then show ?case using Cons by (auto simp: is_sep_def)
qed

lemma no_underscore_dash_upper:
  "CHR ''_'' \<notin> set s \<Longrightarrow> CHR ''_'' \<notin> set (dash_upper off s)"
proof (induction s arbitrary: off)
  case Nil
  show ?case by simp
next
  case (Cons c cs)
  have "is_upper c \<Longrightarrow> toLowerCase_char c \<noteq> CHR ''_''"
    using upper_lower_neq[of c] by (auto simp: is_sep_def)
  then show ?case using Cons by auto
qed

lemma set_strip_leading_dash: "set (strip_leading_dash s) \<subseteq> set s"
  by (cases s) auto

lemma underscore_not_recovered:
  assumes "CHR ''_'' \<in> set b"
  shows "componentNameToBaseName (pascal_case b) \<noteq> Some b"
proof
  assume "componentNameToBaseName (pascal_case b) = Some b"
  then have "b = strip_leading_dash (dash_upper 0 (pascal True b))"
    by (auto simp: componentNameToBaseName_def pascal_case_eq split: if_splits)
  moreover have "CHR ''_'' \<notin> set (strip_leading_dash (dash_upper 0 (pascal True b)))"
    using set_strip_leading_dash no_underscore_dash_upper[OF no_underscore_pascal] by blast
  ultimately show False using assms by simp
qed

lemma slug_recovered:
  assumes b: "b \<noteq> []" and hd: "\<not> is_dash (hd b)" and sl: "list_all slug_char b"
  shows "componentNameToBaseName (pascal_case b) = Some b \<longleftrightarrow> dashes_before_letters b"
proof -
  from b obtain c cs where bc: "b = c # cs" by (cases b) auto
  with hd sl have c: "slug_char c" "\<not> is_dash c" and cs: "list_all slug_char cs" by simp_all
  have d: "dashes_before_letters b \<longleftrightarrow> dashes_before_letters cs"
    using c(2) bc by (cases cs) auto
  from c(1) have "strip_leading_dash (dash_upper 0 (pascal True b)) = c # dash_all (pascal False cs)"
  proof (cases rule: slug_char_cases)
    case lower
    then show ?thesis using lower_upper[of c] bc by (simp add: dash_upper_pos)
  next
    case digit
    then show ?thesis using bc by (simp add: dash_upper_pos toUpperCase_char_def)
  next
    case dash
    with c(2) show ?thesis by simp
  qed
  moreover have "pascal True b \<noteq> []"
    using c bc by (cases rule: slug_char_cases[OF c(1)]) auto
  ultimately show ?thesis
    using tail_recovered[OF cs] d bc by (simp add: componentNameToBaseName_def pascal_case_eq)
qed

subsection \<open>The round trip of a derived identity\<close>

text \<open>
  Claim C1, as stated, fails: \<^verbatim>\<open>my_icon.svg\<close> is sanitised to the base name
  \<^verbatim>\<open>my_icon\<close> and the identifier \<^verbatim>\<open>MyIcon\<close>, which has no two adjacent upper-case
  letters, and \<^verbatim>\<open>componentNameToBaseName\<close> recovers \<^verbatim>\<open>my-icon\<close>.
\<close>

theorem roundtrip_underscore_counterexample:
  "sanitizeName ''my_icon.svg'' = Some \<lparr>baseName = ''my_icon'', componentName = ''MyIcon''\<rparr> \<and>
   \<not> consecutive_upper ''MyIcon'' \<and>
   componentNameToBaseName ''MyIcon'' = Some ''my-icon'' \<and>
   ''my-icon'' \<noteq> ''my_icon''"
  by code_simp

text \<open>
  Claim C1, amended: for every raw label on which \<^verbatim>\<open>sanitizeName\<close> succeeds,
  \<^verbatim>\<open>componentNameToBaseName\<close> applied to the returned component name yields the
  returned base name exactly when the base name has no underscore and each of its
  dashes is directly followed by a lower-case letter.
\<close>

theorem roundtrip_iff:
  assumes "sanitizeName label = Some r"
  shows "componentNameToBaseName (componentName r) = Some (baseName r) \<longleftrightarrow>
           CHR ''_'' \<notin> set (baseName r) \<and> dashes_before_letters (baseName r)"
proof -
  let ?b = "sanitize_baseName label"
  from assms have ne: "?b \<noteq> []" and r: "baseName r = ?b" "componentName r = pascal_case ?b"
    by (auto simp: sanitizeName_def Let_def split: if_splits)
  show ?thesis
  proof (cases "CHR ''_'' \<in> set ?b")
    case True
    then show ?thesis using underscore_not_recovered[OF True] r by simp
  next
    case False
    have "list_all slug_char ?b"
      using sanitize_baseName_chars[of label] False
      by (auto simp: list_all_iff norm_char_def slug_char_def is_sep_def is_dash_def)
    then show ?thesis
      using slug_recovered[OF ne sanitize_baseName_hd[OF ne]] False r by simp
  qed
qed

theorem roundtrip_iff_witness:
  "sanitizeName ''my-icon.svg'' = Some \<lparr>baseName = ''my-icon'', componentName = ''MyIcon''\<rparr> \<and>
   componentNameToBaseName ''MyIcon'' = Some ''my-icon''"
proof -
  have h: "sanitizeName ''my-icon.svg'' = Some \<lparr>baseName = ''my-icon'', componentName = ''MyIcon''\<rparr>"
    by code_simp
  have c: "CHR ''_'' \<notin> set ''my-icon'' \<and> dashes_before_letters ''my-icon''"
    by code_simp
  from roundtrip_iff[OF h] c h show ?thesis by simp
qed

subsection \<open>The contract of \<^verbatim>\<open>sanitizeName\<close>\<close>

lemma lower_agree: "toLowerCase_char c = contract_lower c"
proof -
  have "\<forall>c. toLowerCase_char c = contract_lower c" by code_simp
  then show ?thesis by blast
qed

lemma upper_agree: "toUpperCase_char c = contract_upper c"
proof -
  have "\<forall>c. toUpperCase_char c = contract_upper c" by code_simp
  then show ?thesis by blast
qed

lemma name_char_agree: "is_name_char c = (c \<in> set contract_name_chars)"
proof -
  have "\<forall>c. is_name_char c = (c \<in> set contract_name_chars)" by code_simp
  then show ?thesis by blast
qed

lemma is_dash_eq: "is_dash = (\<lambda>c. c = CHR ''-'')"
  by (simp add: fun_eq_iff is_dash_def)

lemma toLowerCase_contract: "toLowerCase s = map contract_lower s"
  by (simp add: toLowerCase_def lower_agree)

lemma contract_strip_svg_eq: "contract_strip_svg s = strip_svg_spec s"
proof -
  have "length ''.svg'' = (4::nat)" by simp
  then have "endsWith_ci s ''.svg'' \<longleftrightarrow>
      4 \<le> length s \<and> map contract_lower (drop (length s - 4) s) = ''.svg''"
    unfolding endsWith_ci_def toLowerCase_contract by (simp only:)
  then show ?thesis by (simp add: contract_strip_svg_def strip_svg_spec_def)
qed

lemma contract_replace_eq: "contract_replace s = replace_invalid s"
  by (simp add: contract_replace_def replace_invalid_def name_char_agree)

lemma contract_collapse_eq: "contract_collapse s = squeeze_dashes s"
  by (induction s rule: squeeze_dashes.induct) (simp_all add: is_dash_def)

lemma contract_trim_eq: "contract_trim s = trim_dashes_spec s"
  by (simp add: contract_trim_def trim_dashes_spec_def is_dash_eq)

lemma contract_baseName_eq: "contract_baseName name = sanitize_baseName name"
  by (simp add: contract_baseName_def sanitize_baseName_eq sanitize_baseName_spec_def
      toLowerCase_contract contract_strip_svg_eq contract_replace_eq contract_collapse_eq
      contract_trim_eq)

lemma contract_sep_eq: "contract_sep c = is_sep c"
  by (auto simp: is_sep_def contract_sep_def)

lemma contract_split_Nil: "contract_split [] = [[]]"
  by (subst contract_split.simps) simp

lemma contract_split_sep: "is_sep c \<Longrightarrow> contract_split (c # cs) = [] # contract_split cs"
  by (subst contract_split.simps[of "c # cs"]) (simp add: contract_sep_eq)

lemma contract_split_other:
  assumes "\<not> is_sep c"
  shows "contract_split (c # cs) = (case contract_split cs of [] \<Rightarrow> [[c]] | p # ps \<Rightarrow> (c # p) # ps)"
proof -
  have d: "dropWhile (\<lambda>c. \<not> contract_sep c) (c # cs) = dropWhile (\<lambda>c. \<not> contract_sep c) cs"
    using assms by (simp add: contract_sep_eq)
  have t: "takeWhile (\<lambda>c. \<not> contract_sep c) (c # cs) = c # takeWhile (\<lambda>c. \<not> contract_sep c) cs"
    using assms by (simp add: contract_sep_eq)
  show ?thesis
  proof (cases "dropWhile (\<lambda>c. \<not> contract_sep c) cs")
    case Nil
    have "contract_split cs = [cs]"
      by (subst contract_split.simps) (simp only: Nil list.case)
    moreover have "contract_split (c # cs) = [c # cs]"
      by (subst contract_split.simps) (simp only: d Nil list.case)
    ultimately show ?thesis by simp
  next
    case (Cons sep rest)
    have "contract_split cs = takeWhile (\<lambda>c. \<not> contract_sep c) cs # contract_split rest"
      by (subst contract_split.simps) (simp only: Cons list.case)
    moreover have "contract_split (c # cs)
        = (c # takeWhile (\<lambda>c. \<not> contract_sep c) cs) # contract_split rest"
      by (subst contract_split.simps) (simp only: d t Cons list.case)
    ultimately show ?thesis by simp
  qed
qed

lemma contract_split_eq: "contract_split s = split_sep s"
  by (induction s) (simp_all add: contract_split_Nil contract_split_sep contract_split_other)

lemma capitalize_contract:
  "capitalize seg = (case seg of [] \<Rightarrow> [] | c # cs \<Rightarrow> contract_upper c # cs)"
  by (cases seg) (simp_all add: upper_agree)

lemma contract_componentName_eq: "contract_componentName b = pascal_case b"
  by (simp add: contract_componentName_def pascal_case_def contract_split_eq capitalize_contract
      cong: map_cong)


text \<open>
  Claim C6: \<^verbatim>\<open>sanitizeName\<close> strips a trailing case-insensitive \<^verbatim>\<open>.svg\<close>, replaces
  every character outside \<^verbatim>\<open>[A-Za-z0-9_-]\<close> by a dash, collapses runs of dashes,
  trims the dashes at both ends and lower-cases the result; it returns null exactly
  when that base name is empty, as for the empty string, \<^verbatim>\<open>.svg\<close> and \<^verbatim>\<open>---\<close>, and
  otherwise the component name is the concatenation of the capitalised segments of
  the base name split at dashes and underscores. The right-hand side is the contract
  written out from the sentence, with its own alphabets and its own split; three more
  inputs show the replacement, the collapsing, the trimming and the capitals at work.
\<close>

theorem sanitizeName_contract:
  "sanitizeName name =
     (if contract_baseName name = [] then None
      else Some \<lparr>baseName = contract_baseName name,
                 componentName = contract_componentName (contract_baseName name)\<rparr>) \<and>
   sanitizeName [] = None \<and> sanitizeName ''.svg'' = None \<and> sanitizeName ''---'' = None \<and>
   sanitizeName ''My Icon!.SVG'' = Some \<lparr>baseName = ''my-icon'', componentName = ''MyIcon''\<rparr> \<and>
   sanitizeName ''--arrow_left  2.svg'' =
     Some \<lparr>baseName = ''arrow_left-2'', componentName = ''ArrowLeft2''\<rparr> \<and>
   sanitizeName ''a.svg.svg'' = Some \<lparr>baseName = ''a-svg'', componentName = ''ASvg''\<rparr>"
proof -
  have "sanitizeName [] = None" by code_simp
  moreover have "sanitizeName ''.svg'' = None" by code_simp
  moreover have "sanitizeName ''---'' = None" by code_simp
  moreover have "sanitizeName ''My Icon!.SVG'' = Some \<lparr>baseName = ''my-icon'', componentName = ''MyIcon''\<rparr>"
    by code_simp
  moreover have "sanitizeName ''--arrow_left  2.svg'' =
     Some \<lparr>baseName = ''arrow_left-2'', componentName = ''ArrowLeft2''\<rparr>" by code_simp
  moreover have "sanitizeName ''a.svg.svg'' = Some \<lparr>baseName = ''a-svg'', componentName = ''ASvg''\<rparr>"
    by code_simp
  ultimately show ?thesis
    by (simp add: sanitizeName_def Let_def contract_baseName_eq contract_componentName_eq)
qed

section \<open>Properties of sorting and of the merger\<close>

subsection \<open>Stable insertion sort\<close>

lemma mset_insert_sorted: "mset (insert_sorted le x xs) = add_mset x (mset xs)"
  by (induction xs) auto

lemma mset_sort_stable: "mset (sort_stable le xs) = mset xs"
  by (induction xs) (auto simp: sort_stable_def mset_insert_sorted)

lemma set_sort_stable: "set (sort_stable le xs) = set xs"
  using mset_sort_stable[of le xs] by (metis set_mset_mset)

lemma set_insert_sorted: "set (insert_sorted le x xs) = insert x (set xs)"
  using mset_insert_sorted[of le x xs] by (metis set_mset_mset set_mset_add_mset_insert)

lemma sorted_insert_sorted:
  assumes total: "\<And>a b. le a b \<or> le b a" and trans: "\<And>a b c. le a b \<Longrightarrow> le b c \<Longrightarrow> le a c"
  shows "sorted_wrt le xs \<Longrightarrow> sorted_wrt le (insert_sorted le x xs)"
proof (induction xs)
  case Nil
  show ?case by simp
next
  case (Cons y ys)
  show ?case
  proof (cases "le x y")
    case True
    then have "\<forall>z\<in>set ys. le x z" using Cons.prems trans by auto
    then show ?thesis using True Cons.prems by simp
  next
    case False
    then have "le y x" using total by blast
    then show ?thesis using False Cons by (auto simp: set_insert_sorted)
  qed
qed

lemma sorted_sort_stable:
  assumes total: "\<And>a b. le a b \<or> le b a" and trans: "\<And>a b c. le a b \<Longrightarrow> le b c \<Longrightarrow> le a c"
  shows "sorted_wrt le (sort_stable le xs)"
proof (induction xs)
  case Nil
  show ?case by (simp add: sort_stable_def)
next
  case (Cons x xs)
  then show ?case
    using sorted_insert_sorted[of le "sort_stable le xs" x] total trans
    by (simp add: sort_stable_def)
qed

lemma sorted_wrt_unique:
  assumes anti: "\<And>a b. a \<in> set xs \<Longrightarrow> b \<in> set xs \<Longrightarrow> le a b \<Longrightarrow> le b a \<Longrightarrow> a = b"
  shows "sorted_wrt le xs \<Longrightarrow> sorted_wrt le ys \<Longrightarrow> mset xs = mset ys \<Longrightarrow> xs = ys"
  using anti
proof (induction xs arbitrary: ys)
  case Nil
  then show ?case by simp
next
  case (Cons x xs)
  from Cons.prems(3) obtain y ys' where ys: "ys = y # ys'"
    by (cases ys) auto
  have sets: "set (x # xs) = set ys" using Cons.prems(3) by (metis set_mset_mset)
  have "x = y"
  proof (rule ccontr)
    assume ne: "x \<noteq> y"
    then have "x \<in> set ys'" "y \<in> set xs" using sets ys by auto
    then have "le y x" "le x y" using Cons.prems(1,2) ys by auto
    moreover have "x \<in> set (x # xs)" "y \<in> set (x # xs)" using sets ys by auto
    ultimately show False using Cons.prems(4) ne by blast
  qed
  moreover have "xs = ys'"
  proof (rule Cons.IH)
    show "sorted_wrt le xs" using Cons.prems(1) by simp
    show "sorted_wrt le ys'" using Cons.prems(2) ys by simp
    show "mset xs = mset ys'" using Cons.prems(3) ys \<open>x = y\<close> by simp
    show "\<And>a b. a \<in> set xs \<Longrightarrow> b \<in> set xs \<Longrightarrow> le a b \<Longrightarrow> le b a \<Longrightarrow> a = b"
      using Cons.prems(4) by simp
  qed
  ultimately show ?case using ys by simp
qed

lemma sort_stable_permutation:
  assumes total: "\<And>a b. le a b \<or> le b a" and trans: "\<And>a b c. le a b \<Longrightarrow> le b c \<Longrightarrow> le a c"
    and anti: "\<And>a b. a \<in> set xs \<Longrightarrow> b \<in> set xs \<Longrightarrow> le a b \<Longrightarrow> le b a \<Longrightarrow> a = b"
    and perm: "mset xs = mset ys"
  shows "sort_stable le xs = sort_stable le ys"
proof (rule sorted_wrt_unique)
  show "sorted_wrt le (sort_stable le xs)" "sorted_wrt le (sort_stable le ys)"
    using sorted_sort_stable[of le] total trans by blast+
  show "mset (sort_stable le xs) = mset (sort_stable le ys)"
    using perm by (simp add: mset_sort_stable)
  show "\<And>a b. a \<in> set (sort_stable le xs) \<Longrightarrow> b \<in> set (sort_stable le xs) \<Longrightarrow> le a b \<Longrightarrow> le b a \<Longrightarrow> a = b"
    using anti by (simp add: set_sort_stable)
qed

subsection \<open>The code unit order\<close>

lemma code_inj: "code a = code b \<Longrightarrow> a = b"
  by (simp add: code_def)

lemma code_unit_le_total: "code_unit_le a b \<or> code_unit_le b a"
  by (induction a b rule: code_unit_le.induct) auto

lemma code_unit_le_trans: "code_unit_le a b \<Longrightarrow> code_unit_le b c \<Longrightarrow> code_unit_le a c"
proof (induction a b arbitrary: c rule: code_unit_le.induct)
  case (1 ys)
  show ?case by simp
next
  case (2 x xs)
  then show ?case by simp
next
  case (3 x xs y ys)
  then show ?case by (cases c) auto
qed

lemma code_unit_le_antisym: "code_unit_le a b \<Longrightarrow> code_unit_le b a \<Longrightarrow> a = b"
proof (induction a b rule: code_unit_le.induct)
  case (1 ys)
  then show ?case by (cases ys) auto
qed (auto dest: code_inj)

subsection \<open>new Set\<close>

lemma new_Set_fold:
  "distinct acc \<Longrightarrow>
     distinct (foldl (\<lambda>acc x. if x \<in> set acc then acc else acc @ [x]) acc xs) \<and>
     set (foldl (\<lambda>acc x. if x \<in> set acc then acc else acc @ [x]) acc xs) = set acc \<union> set xs"
  by (induction xs arbitrary: acc) auto

lemma distinct_new_Set: "distinct (new_Set xs)" and set_new_Set: "set (new_Set xs) = set xs"
  using new_Set_fold[of "[]" xs] by (simp_all add: new_Set_def)

lemma new_Set_permutation: "set xs = set ys \<Longrightarrow> mset (new_Set xs) = mset (new_Set ys)"
  by (simp add: set_eq_iff_mset_eq_distinct[symmetric] distinct_new_Set set_new_Set)

lemma uniqueIconBaseNames_permutation:
  assumes "set xs = set ys"
  shows "uniqueIconBaseNames xs = uniqueIconBaseNames ys"
  unfolding uniqueIconBaseNames_def
proof (rule sort_stable_permutation)
  show "mset (new_Set (map baseName xs)) = mset (new_Set (map baseName ys))"
    using assms by (intro new_Set_permutation) simp
qed (use code_unit_le_total code_unit_le_trans code_unit_le_antisym in blast)+

lemma set_update_subset: "set (AList.update k v al) \<subseteq> insert (k, v) (set al)"
  by (induction al) auto

lemma update_new_key: "k \<notin> fst ` set al \<Longrightarrow> AList.update k v al = al @ [(k, v)]"
  by (induction al) auto

lemma map_of_set_icons:
  "map_of (foldl set_icon m xs) = map_of m ++ map_of (rev (map (\<lambda>i. (componentName i, i)) xs))"
proof (induction xs arbitrary: m)
  case Nil
  show ?case by simp
next
  case (Cons x xs)
  let ?R = "map_of (rev (map (\<lambda>i. (componentName i, i)) xs))"
  have a: "map_of (set_icon m x) = map_of m ++ [componentName x \<mapsto> x]"
    unfolding set_icon_def update_conv' by simp
  have b: "map_of (rev (map (\<lambda>i. (componentName i, i)) (x # xs))) = [componentName x \<mapsto> x] ++ ?R"
    by (simp add: map_of_append)
  have "map_of (foldl set_icon m (x # xs)) = map_of (set_icon m x) ++ ?R"
    using Cons.IH[of "set_icon m x"] by simp
  also have "\<dots> = map_of m ++ ([componentName x \<mapsto> x] ++ ?R)"
    unfolding a by (rule map_add_assoc[symmetric])
  finally show ?case unfolding b .
qed

lemma distinct_set_icons: "distinct (map fst m) \<Longrightarrow> distinct (map fst (foldl set_icon m xs))"
  by (induction xs arbitrary: m) (auto simp: set_icon_def distinct_update)

lemma keyed_set_icons:
  "\<forall>(k, v)\<in>set m. componentName v = k \<Longrightarrow> \<forall>(k, v)\<in>set (foldl set_icon m xs). componentName v = k"
proof (induction xs arbitrary: m)
  case Nil
  then show ?case by simp
next
  case (Cons x xs)
  have "\<forall>(k, v)\<in>set (set_icon m x). componentName v = k"
    using Cons.prems set_update_subset[of "componentName x" x m] by (auto simp: set_icon_def)
  from Cons.IH[OF this] show ?case by simp
qed

lemma allIconsMap_distinct: "distinct (map fst (allIconsMap ex inc))"
  by (simp add: allIconsMap_def distinct_set_icons)

lemma allIconsMap_keyed: "\<forall>(k, v)\<in>set (allIconsMap ex inc). componentName v = k"
  unfolding allIconsMap_def by (intro keyed_set_icons) simp

lemma allIconsMap_names: "map componentName (map snd (allIconsMap ex inc)) = map fst (allIconsMap ex inc)"
  using allIconsMap_keyed[of ex inc] by (induction "allIconsMap ex inc") auto

lemma map_of_allIconsMap:
  "map_of (allIconsMap ex inc) =
     map_of (rev (map (\<lambda>i. (componentName i, i)) ex)) ++ map_of (rev (map (\<lambda>i. (componentName i, i)) inc))"
  by (simp add: allIconsMap_def map_of_set_icons)

lemma mset_sort_icons: "mset (sort_icons coll xs) = mset xs"
  by (simp add: sort_icons_def mset_sort_stable)

lemma set_sort_icons: "set (sort_icons coll xs) = set xs"
  by (simp add: sort_icons_def set_sort_stable)

lemma sorted_sort_icons:
  assumes "\<And>a b. coll a b \<or> coll b a" and "\<And>a b c. coll a b \<Longrightarrow> coll b c \<Longrightarrow> coll a c"
  shows "sorted_wrt (\<lambda>a b. coll (baseName a) (baseName b)) (sort_icons coll xs)"
  unfolding sort_icons_def
  by (rule sorted_sort_stable) (use assms in blast)+

lemma merge_incoming_wins:
  assumes j: "j \<in> set (merge_icons coll ex inc)" and i: "i \<in> set inc"
    and eq: "componentName i = componentName j"
  shows "j \<in> set inc"
proof -
  let ?kv = "\<lambda>i::icon. (componentName i, i)"
  from j obtain k where kj: "(k, j) \<in> set (allIconsMap ex inc)"
    by (auto simp: merge_icons_def set_sort_icons)
  with allIconsMap_keyed[of ex inc] have k: "k = componentName j" by auto
  from kj have "map_of (allIconsMap ex inc) k = Some j"
    using allIconsMap_distinct[of ex inc] by simp
  moreover have "k \<in> dom (map_of (rev (map ?kv inc)))"
  proof -
    have "(componentName i, i) \<in> set (rev (map ?kv inc))" using i by auto
    then have "fst (componentName i, i) \<in> fst ` set (rev (map ?kv inc))" by (rule imageI)
    then show ?thesis using eq k by (simp add: dom_map_of_conv_image_fst)
  qed
  ultimately have "map_of (rev (map ?kv inc)) k = Some j"
    by (auto simp: map_of_allIconsMap map_add_dom_app_simps)
  then have "(k, j) \<in> set (rev (map ?kv inc))" by (rule map_of_SomeD)
  then show ?thesis by auto
qed

subsection \<open>Stability, the collation of the examples, and joined lines\<close>


lemma filter_insert_sorted:
  assumes cls: "\<forall>a b. P a \<longrightarrow> P b \<longrightarrow> le a b"
  shows "filter P (insert_sorted le x ys) = (if P x then x # filter P ys else filter P ys)"
proof (induction ys)
  case Nil
  show ?case by simp
next
  case (Cons y ys)
  show ?case
  proof (cases "le x y")
    case True
    then show ?thesis by simp
  next
    case False
    have "\<not> (P x \<and> P y)"
      using False cls by blast
    with False Cons.IH show ?thesis by auto
  qed
qed

lemma filter_sort_stable:
  assumes cls: "\<forall>a b. P a \<longrightarrow> P b \<longrightarrow> le a b"
  shows "filter P (sort_stable le xs) = filter P xs"
proof (induction xs)
  case Nil
  show ?case by (simp add: sort_stable_def)
next
  case (Cons x xs)
  have "sort_stable le (x # xs) = insert_sorted le x (sort_stable le xs)"
    by (simp add: sort_stable_def)
  with Cons filter_insert_sorted[OF cls, of x "sort_stable le xs"] show ?case by simp
qed

lemma filter_sort_icons:
  assumes trans: "\<forall>a b c. coll a b \<longrightarrow> coll b c \<longrightarrow> coll a c"
  shows "filter (\<lambda>i. coll k (baseName i) \<and> coll (baseName i) k) (sort_icons coll xs)
           = filter (\<lambda>i. coll k (baseName i) \<and> coll (baseName i) k) xs"
proof -
  have "\<forall>a b. (coll k (baseName a) \<and> coll (baseName a) k)
           \<longrightarrow> (coll k (baseName b) \<and> coll (baseName b) k)
           \<longrightarrow> coll (baseName a) (baseName (b::icon))"
    using trans by blast
  then show ?thesis unfolding sort_icons_def by (rule filter_sort_stable)
qed

lemma localeCompare_le_total: "localeCompare_le a b \<or> localeCompare_le b a"
  by (induction a b rule: localeCompare_le.induct) auto

lemma localeCompare_le_trans:
  "localeCompare_le a b \<Longrightarrow> localeCompare_le b c \<Longrightarrow> localeCompare_le a c"
proof (induction a b arbitrary: c rule: localeCompare_le.induct)
  case (1 ys)
  show ?case by simp
next
  case (2 x xs)
  then show ?case by simp
next
  case (3 x xs y ys)
  then show ?case by (cases c) auto
qed

lemma keys_set_icons:
  "map fst (foldl set_icon m xs) =
     foldl (\<lambda>acc x. if x \<in> set acc then acc else acc @ [x]) (map fst m) (map componentName xs)"
proof (induction xs arbitrary: m)
  case Nil
  show ?case by simp
next
  case (Cons x xs)
  have "map fst (set_icon m x) =
          (if componentName x \<in> set (map fst m) then map fst m else map fst m @ [componentName x])"
    by (simp add: set_icon_def update_new_key AList.update_keys)
  with Cons[of "set_icon m x"] show ?case by simp
qed

lemma keys_allIconsMap:
  "map fst (allIconsMap ex inc) = new_Set (map componentName (ex @ inc))"
  by (simp add: allIconsMap_def new_Set_def keys_set_icons)

lemma join_concat_Cons:
  "A @ join (B @ A) (u # us) @ B = concat (map (\<lambda>b. A @ b @ B) (u # us))"
proof (induction us arbitrary: u)
  case Nil
  show ?case by simp
next
  case (Cons v vs)
  have "A @ join (B @ A) (u # v # vs) @ B = A @ u @ B @ (A @ join (B @ A) (v # vs) @ B)"
    by simp
  also have "\<dots> = A @ u @ B @ concat (map (\<lambda>b. A @ b @ B) (v # vs))"
    using Cons[of v] by simp
  finally show ?case by simp
qed

lemma join_concat:
  "us \<noteq> [] \<Longrightarrow> A @ join (B @ A) us @ B = concat (map (\<lambda>b. A @ b @ B) us)"
  using join_concat_Cons[of A B] by (cases us) blast+

section \<open>Properties of the scanner and of regeneration\<close>

lemma length_dash_upper: "length s \<le> length (dash_upper off s)"
proof (induction s arbitrary: off)
  case Nil
  show ?case by simp
next
  case (Cons c cs)
  from Cons[of "Suc off"] show ?case by auto
qed

lemma dash_upper_no_upper: "list_all (\<lambda>c. \<not> is_upper c) s \<Longrightarrow> dash_upper off s = s"
  by (induction s arbitrary: off) auto

lemma recover_nonempty:
  assumes "stem \<noteq> []" "stem \<noteq> ''-''"
  shows "\<exists>b. componentNameToBaseName stem = Some b \<and> b \<noteq> []"
proof -
  from assms(1) obtain c cs where s: "stem = c # cs" by (cases stem) auto
  have "strip_leading_dash (dash_upper 0 stem) \<noteq> []"
  proof (cases "is_upper c")
    case True
    then have "\<not> is_dash (toLowerCase_char c)"
      using upper_lower[of c] class_disjoint(1)[of "toLowerCase_char c"] by blast
    then show ?thesis using True s by simp
  next
    case False
    show ?thesis
    proof (cases "is_dash c")
      case True
      with assms(2) s have "cs \<noteq> []" by (auto simp: is_dash_def)
      then have "dash_upper (Suc 0) cs \<noteq> []"
        using length_dash_upper[of cs "Suc 0"] by auto
      then show ?thesis using True False s by simp
    next
      case nd: False
      then show ?thesis using False s by simp
    qed
  qed
  then show ?thesis using assms(1) by (simp add: componentNameToBaseName_def)
qed

lemma recover_lower_stem:
  assumes "stem \<noteq> []" "list_all (\<lambda>c. \<not> is_upper c) stem" "\<not> is_dash (hd stem)"
  shows "componentNameToBaseName stem = Some stem"
  using assms by (cases stem) (auto simp: componentNameToBaseName_def dash_upper_no_upper)

lemma scan_entry_cases:
  "scan_entry m f = m \<or>
   scan_entry m f = AList.update (strip_suffix_ci ''.svelte'' f)
     (identity_of (strip_suffix_ci ''.svelte'' f)) m"
  by (auto simp: scan_entry_def Let_def identity_of_def split: option.splits)

lemma scan_entry_accept:
  assumes "endsWith_ci f ''.svelte''" "componentNameToBaseName (take (length f - 7) f) = Some b" "b \<noteq> []"
  shows "scan_entry m f = AList.update (take (length f - 7) f) (identity_of (take (length f - 7) f)) m"
proof -
  have "length ''.svelte'' = (7::nat)" by simp
  then have "strip_suffix_ci ''.svelte'' f = take (length f - 7) f"
    using assms(1) unfolding strip_suffix_ci_eq by (simp only: if_True)
  moreover have "take (length f - 7) f \<noteq> []"
    using assms(2) by (auto simp: componentNameToBaseName_def split: if_splits)
  ultimately show ?thesis
    using assms by (simp add: scan_entry_def identity_of_def Let_def)
qed

lemma scan_preserves:
  "map_of m k = Some (identity_of k) \<Longrightarrow> map_of (foldl scan_entry m fs) k = Some (identity_of k)"
proof (induction fs arbitrary: m)
  case Nil
  then show ?case by simp
next
  case (Cons f fs)
  have "map_of (scan_entry m f) k = Some (identity_of k)"
    using scan_entry_cases[of m f] Cons.prems by (auto simp: update_conv')
  from Cons.IH[OF this] show ?case by simp
qed

lemma scan_finds:
  assumes "f \<in> set fs" "endsWith_ci f ''.svelte''"
    "componentNameToBaseName (take (length f - 7) f) = Some b" "b \<noteq> []"
  shows "map_of (foldl scan_entry m fs) (take (length f - 7) f) = Some (identity_of (take (length f - 7) f))"
  using assms(1)
proof (induction fs arbitrary: m)
  case Nil
  then show ?case by simp
next
  case (Cons g gs)
  show ?case
  proof (cases "f = g")
    case True
    have "map_of (scan_entry m g) (take (length f - 7) f) = Some (identity_of (take (length f - 7) f))"
      using scan_entry_accept[OF assms(2,3,4), of m] True by (simp add: update_conv')
    from scan_preserves[OF this] show ?thesis by simp
  next
    case False
    then have "f \<in> set gs" using Cons.prems by simp
    from Cons.IH[OF this] show ?thesis by simp
  qed
qed

lemma scan_member:
  assumes "f \<in> set entries" "endsWith_ci f ''.svelte''"
    "componentNameToBaseName (take (length f - 7) f) = Some b" "b \<noteq> []"
  shows "\<lparr>baseName = b, componentName = take (length f - 7) f\<rparr>
           \<in> set (getCurrentIconsFromComponents (Entries entries))"
proof -
  let ?stem = "take (length f - 7) f"
  have "map_of (foldl scan_entry [] entries) ?stem = Some (identity_of ?stem)"
    by (rule scan_finds[OF assms])
  then have "(?stem, identity_of ?stem) \<in> set (foldl scan_entry [] entries)"
    by (rule map_of_SomeD)
  then have "snd (?stem, identity_of ?stem) \<in> snd ` set (foldl scan_entry [] entries)"
    by (rule imageI)
  then show ?thesis using assms(3) by (simp add: getCurrentIconsFromComponents_def identity_of_def)
qed

text \<open>
  Claim C10, amended: the scanner accepts every directory entry that ends, in any
  case, in \<^verbatim>\<open>.svelte\<close> and whose stem is neither empty nor the single dash; it takes the
  stem as it is for the component name, with the base name that
  \<^verbatim>\<open>componentNameToBaseName\<close> recovers and no check that the stem is the Pascal-case
  form of it. For a stem without upper-case letters that does not begin with a dash
  the identity has the stem as component name and as base name. The identity is in the
  sorted list from which the type artifact is rendered.
\<close>

theorem scanner_takes_stem:
  assumes "f \<in> set entries" and "endsWith_ci f ''.svelte''"
    and "stem = take (length f - 7) f" and "stem \<noteq> []" and "stem \<noteq> ''-''"
  shows "(\<exists>b. componentNameToBaseName stem = Some b \<and> b \<noteq> [] \<and>
            \<lparr>baseName = b, componentName = stem\<rparr>
              \<in> set (getCurrentIconsFromComponents (Entries entries)) \<and>
            \<lparr>baseName = b, componentName = stem\<rparr>
              \<in> set (sort_icons coll (getCurrentIconsFromComponents (Entries entries)))) \<and>
         (list_all (\<lambda>c. \<not> is_upper c) stem \<and> \<not> is_dash (hd stem) \<longrightarrow>
            \<lparr>baseName = stem, componentName = stem\<rparr>
              \<in> set (getCurrentIconsFromComponents (Entries entries))) \<and>
         regenerateFilesFromComponents coll (\<lambda>p. False) loader (Entries entries) =
           [(''SvgName.ts'',
             typeContent header_bin (sort_icons coll (getCurrentIconsFromComponents (Entries entries)))),
            (''SvgIcon.svelte'', loader)]"
proof -
  from recover_nonempty[OF assms(4,5)] obtain b
    where b: "componentNameToBaseName stem = Some b" "b \<noteq> []" by blast
  have m: "\<lparr>baseName = b, componentName = stem\<rparr>
             \<in> set (getCurrentIconsFromComponents (Entries entries))"
    using scan_member[OF assms(1,2), of b] b assms(3) by simp
  then have ne: "getCurrentIconsFromComponents (Entries entries) \<noteq> []" by auto
  have l: "list_all (\<lambda>c. \<not> is_upper c) stem \<and> \<not> is_dash (hd stem) \<longrightarrow> b = stem"
    using recover_lower_stem[OF assms(4), of] b by auto
  have r: "regenerateFilesFromComponents coll (\<lambda>p. False) loader (Entries entries) =
           [(''SvgName.ts'',
             typeContent header_bin (sort_icons coll (getCurrentIconsFromComponents (Entries entries)))),
            (''SvgIcon.svelte'', loader)]"
    using ne by (simp add: regenerateFilesFromComponents_def Let_def write_outputs_def)
  from b m l r show ?thesis by (auto simp: set_sort_icons)
qed

theorem scanner_takes_stem_witness:
  "\<lparr>baseName = ''arrow-left'', componentName = ''arrow-left''\<rparr>
     \<in> set (getCurrentIconsFromComponents (Entries [''arrow-left.svelte''])) \<and>
   map_option componentName (sanitizeName ''arrow-left'') = Some ''ArrowLeft''"
proof -
  have 1: "''arrow-left.svelte'' \<in> set [''arrow-left.svelte'']" by simp
  have 2: "endsWith_ci ''arrow-left.svelte'' ''.svelte''" by code_simp
  have 3: "''arrow-left'' = take (length ''arrow-left.svelte'' - 7) ''arrow-left.svelte''" by code_simp
  have 4: "''arrow-left'' \<noteq> []" by simp
  have 5: "''arrow-left'' \<noteq> ''-''" by simp
  have 6: "list_all (\<lambda>c. \<not> is_upper c) ''arrow-left'' \<and> \<not> is_dash (hd ''arrow-left'')" by code_simp
  have 7: "map_option componentName (sanitizeName ''arrow-left'') = Some ''ArrowLeft''" by code_simp
  from scanner_takes_stem[OF 1 2 3 4 5] 6 7 show ?thesis by blast
qed

text \<open>
  Claim C10, as stated, fails on a leading dash: the stem of \<^verbatim>\<open>-a.svelte\<close> has no
  upper-case letter and its identity has the base name \<^verbatim>\<open>a\<close>, not \<^verbatim>\<open>-a\<close>; the stem of
  \<^verbatim>\<open>-.svelte\<close> is not empty and the entry is skipped.
\<close>

theorem scanner_leading_dash_counterexample:
  "getCurrentIconsFromComponents (Entries [''-a.svelte'', ''-.svelte''])
     = [\<lparr>baseName = ''a'', componentName = ''-a''\<rparr>] \<and>
   list_all (\<lambda>c. \<not> is_upper c) ''-a'' \<and> ''-a'' \<noteq> ''a'' \<and> ''-'' \<noteq> []"
  by code_simp

text \<open>
  Claim C5 on the second copy of the script: whenever the scan finds a component,
  regeneration throws a \<^verbatim>\<open>ReferenceError\<close> before it writes; so it does for the
  directory with \<^verbatim>\<open>ArrowLeft.svelte\<close> and \<^verbatim>\<open>LogoMain.svelte\<close>.
\<close>

theorem regenerate_part000_throws:
  "regenerateFilesFromComponents_part000 coll write_fails dir =
     (if getCurrentIconsFromComponents dir = [] then Inr [] else Inl ReferenceError) \<and>
   regenerateFilesFromComponents_part000 coll write_fails
     (Entries [''ArrowLeft.svelte'', ''LogoMain.svelte'']) = Inl ReferenceError"
proof -
  have "getCurrentIconsFromComponents (Entries [''ArrowLeft.svelte'', ''LogoMain.svelte'']) \<noteq> []"
    by code_simp
  then show ?thesis by (simp add: regenerateFilesFromComponents_part000_def Let_def)
qed

text \<open>
  \<^verbatim>\<open>bin/generate-icons.js\<close> does what the claim says: from the same directory it writes
  the type artifact with exactly the two base names and their component names, and
  the loader.
\<close>

lemma regenerate_bin_scenario:
  "regenerateFilesFromComponents code_unit_le (\<lambda>p. False) loader
     (Entries [''LogoMain.svelte'', ''ArrowLeft.svelte'']) =
     [(''SvgName.ts'',
       header_bin @ ''export type SvgName = '' @ nl
         @ ''  | '' @ quote @ ''arrow-left'' @ quote @ nl
         @ ''  | '' @ quote @ ''logo-main'' @ quote @ '';'' @ nl @ nl
         @ ''export const iconMap: Record<SvgName, string> = {'' @ nl
         @ ''  '' @ quote @ ''arrow-left'' @ quote @ '': '' @ quote @ ''ArrowLeft'' @ quote @ '','' @ nl
         @ ''  '' @ quote @ ''logo-main'' @ quote @ '': '' @ quote @ ''LogoMain'' @ quote @ '','' @ nl
         @ ''};'' @ nl),
      (''SvgIcon.svelte'', loader)]"
proof -
  have s: "sort_icons code_unit_le (getCurrentIconsFromComponents (Entries [''LogoMain.svelte'', ''ArrowLeft.svelte'']))
     = [\<lparr>baseName = ''arrow-left'', componentName = ''ArrowLeft''\<rparr>,
        \<lparr>baseName = ''logo-main'', componentName = ''LogoMain''\<rparr>]"
    by code_simp
  have n: "getCurrentIconsFromComponents (Entries [''LogoMain.svelte'', ''ArrowLeft.svelte'']) \<noteq> []"
    by code_simp
  have u: "uniqueIconBaseNames [\<lparr>baseName = ''arrow-left'', componentName = ''ArrowLeft''\<rparr>,
        \<lparr>baseName = ''logo-main'', componentName = ''LogoMain''\<rparr>] = [''arrow-left'', ''logo-main'']"
    by code_simp
  show ?thesis
    using n unfolding regenerateFilesFromComponents_def Let_def s
    by (simp add: write_outputs_def typeContent_def u iconMapContent_def iconMapLine_def)
qed

section \<open>Properties of a run\<close>

lemma svelte_path_inj: "n @ ''.svelte'' = m @ ''.svelte'' \<longleftrightarrow> n = m"
  by simp

lemma kept_refl: "n \<in> processedComponentNamesInRun st \<Longrightarrow> kept n st st"
  by (simp add: kept_def)

lemma kept_trans: "kept n a b \<Longrightarrow> kept n b c \<Longrightarrow> kept n a c"
  by (simp add: kept_def)

lemma generate_component_kept:
  "n \<in> processedComponentNamesInRun st \<Longrightarrow> componentName s \<noteq> n \<Longrightarrow>
     kept n st (generate_component e bc st s)"
  by (auto simp: kept_def generate_component_def failed_def outputSveltePath_def update_conv'
      split: sum.splits)

lemma process_source_kept:
  "n \<in> processedComponentNamesInRun st \<Longrightarrow> kept n st (process_source e cl bc st s)"
  using generate_component_kept[of n st s e bc]
  by (auto simp: process_source_def kept_def failed_def)

lemma overwrite_conflict_kept:
  "n \<in> processedComponentNamesInRun st \<Longrightarrow> kept n st (overwrite_conflict e bc st s)"
  using generate_component_kept[of n st s e bc]
  by (auto simp: overwrite_conflict_def kept_def)

lemma foldl_kept:
  assumes step: "\<And>st s. n \<in> processedComponentNamesInRun st \<Longrightarrow> kept n st (f st s)"
  shows "n \<in> processedComponentNamesInRun st \<Longrightarrow> kept n st (foldl f st xs)"
proof (induction xs arbitrary: st)
  case Nil
  then show ?case by (simp add: kept_refl)
next
  case (Cons x xs)
  have a: "kept n st (f st x)" by (rule step[OF Cons.prems])
  then have "n \<in> processedComponentNamesInRun (f st x)" by (simp add: kept_def)
  from Cons.IH[OF this] a show ?case by (auto intro: kept_trans)
qed

lemma handle_conflicts_kept:
  "n \<in> processedComponentNamesInRun st \<Longrightarrow> kept n st (handle_conflicts e bc ow st)"
  using foldl_kept[of n "overwrite_conflict e bc" st "conflicts st"] overwrite_conflict_kept
  by (auto simp: handle_conflicts_def kept_def)

lemma process_all_append:
  "process_all e cl bc fs (xs @ ys) = foldl (process_source e cl bc) (process_all e cl bc fs xs) ys"
  by (simp add: process_all_def)

lemma generated_inv_mono: "generated_inv srcs st \<Longrightarrow> generated_inv (srcs @ rest) st"
  by (auto simp: generated_inv_def)

lemma generate_component_inv:
  "generated_inv srcs st \<Longrightarrow> generated_inv (srcs @ [s]) (generate_component e bc st s)"
  by (auto simp: generated_inv_def generate_component_def failed_def outputSveltePath_def
      update_conv' icon_of_def split: sum.splits)

lemma process_source_inv:
  "generated_inv srcs st \<Longrightarrow> generated_inv (srcs @ [s]) (process_source e cl bc st s)"
  using generate_component_inv[of srcs st s e bc] generated_inv_mono[of srcs st "[s]"]
  by (auto simp: process_source_def failed_def generated_inv_def)

lemma process_all_inv: "generated_inv srcs (process_all e cl bc fs srcs)"
proof (induction srcs rule: rev_induct)
  case Nil
  show ?case by (simp add: process_all_def initial_state_def generated_inv_def)
next
  case (snoc s srcs)
  from process_source_inv[OF snoc, of s e cl bc] show ?case
    by (simp add: process_all_append)
qed

text \<open>
  Claim C3, amended: whenever the component name of a source is among the names
  written earlier in the same run (an earlier source of the batch with that name was
  generated), the source is rejected in the loop over the sources: the error count
  grows by one and nothing else changes, so no file is written for it; and the file
  of that name is the same at the end of the run, whatever the operator answers to
  the conflict prompt, as when the source was met.
\<close>

theorem duplicate_rejected:
  assumes st: "st = process_all e cl bc fs pre"
    and dup: "componentName s \<in> processedComponentNamesInRun st"
  shows "process_all e cl bc fs (pre @ [s]) = st\<lparr>errorCount := errorCount st + 1\<rparr> \<and>
         (\<exists>first\<in>set pre. componentName first = componentName s \<and>
            icon_of first \<in> set (newlyGeneratedIcons st)) \<and>
         map_of (files st) (outputSveltePath s) \<noteq> None \<and>
         map_of (files (generate_all e cl bc ow fs (pre @ s # post))) (outputSveltePath s)
           = map_of (files st) (outputSveltePath s)"
proof -
  have a: "process_all e cl bc fs (pre @ [s]) = st\<lparr>errorCount := errorCount st + 1\<rparr>"
    using dup by (simp add: process_all_append st[symmetric] process_source_def failed_def)
  have inv: "generated_inv pre st" unfolding st by (rule process_all_inv)
  then have b: "\<exists>first\<in>set pre. componentName first = componentName s \<and>
            icon_of first \<in> set (newlyGeneratedIcons st)"
    using dup by (fastforce simp: generated_inv_def icon_of_def)
  have c: "map_of (files st) (outputSveltePath s) \<noteq> None"
    using inv dup by (simp add: generated_inv_def outputSveltePath_def)
  have "kept (componentName s) st (foldl (process_source e cl bc) st (s # post))"
    using foldl_kept[of "componentName s" "process_source e cl bc" st "s # post"]
      process_source_kept dup by blast
  moreover have "process_all e cl bc fs (pre @ s # post) = foldl (process_source e cl bc) st (s # post)"
    by (simp add: process_all_append st)
  ultimately have k: "kept (componentName s) st (process_all e cl bc fs (pre @ s # post))" by simp
  then have "componentName s \<in> processedComponentNamesInRun (process_all e cl bc fs (pre @ s # post))"
    by (simp add: kept_def)
  from handle_conflicts_kept[OF this, of e bc ow] k
  have "kept (componentName s) st (generate_all e cl bc ow fs (pre @ s # post))"
    unfolding generate_all_def by (rule kept_trans[rotated])
  then have d: "map_of (files (generate_all e cl bc ow fs (pre @ s # post))) (outputSveltePath s)
           = map_of (files st) (outputSveltePath s)"
    by (simp add: kept_def outputSveltePath_def)
  from a b c d show ?thesis by blast
qed




















theorem duplicate_rejected_witness:
  "process_all example_env False ''svg-icon'' []
     [pasted ''my-icon'' ''MyIcon'' ''one'', pasted ''my_icon'' ''MyIcon'' ''two'']
     = (process_all example_env False ''svg-icon'' [] [pasted ''my-icon'' ''MyIcon'' ''one''])
         \<lparr>errorCount := 1\<rparr> \<and>
   map_of (files (generate_all example_env False ''svg-icon'' True []
     [pasted ''my-icon'' ''MyIcon'' ''one'', pasted ''my_icon'' ''MyIcon'' ''two'']))
     ''MyIcon.svelte'' = Some ''one''"
proof -
  let ?st = "process_all example_env False ''svg-icon'' [] [pasted ''my-icon'' ''MyIcon'' ''one'']"
  let ?s = "pasted ''my_icon'' ''MyIcon'' ''two''"
  have d: "componentName ?s \<in> processedComponentNamesInRun ?st" by code_simp
  have e: "errorCount ?st = 0" by code_simp
  have f: "map_of (files ?st) (outputSveltePath ?s) = Some ''one''" by code_simp
  have p: "outputSveltePath ?s = ''MyIcon.svelte''" by code_simp
  from duplicate_rejected[OF refl d, of True "[]"] e f p show ?thesis by simp
qed

text \<open>
  Claim C3, as stated, fails. \<^verbatim>\<open>My Icon.svg\<close> and \<^verbatim>\<open>my_icon.svg\<close> share the component
  name \<^verbatim>\<open>MyIcon\<close>. With \<^verbatim>\<open>MyIcon.svelte\<close> on disk both are conflicts, and when the
  operator declines both are skipped: none is counted as failed. With nothing on disk
  and a first source that fails to render, the second is generated and written.
\<close>

theorem duplicate_not_failed_counterexample:
  "map_option componentName (sanitizeName ''My Icon.svg'') = Some ''MyIcon'' \<and>
   map_option componentName (sanitizeName ''my_icon.svg'') = Some ''MyIcon'' \<and>
   errorCount (generate_all example_env False ''svg-icon'' False [(''MyIcon.svelte'', ''old'')]
     [pasted ''my-icon'' ''MyIcon'' ''one'', pasted ''my_icon'' ''MyIcon'' ''two'']) = 0 \<and>
   skipCount (generate_all example_env False ''svg-icon'' False [(''MyIcon.svelte'', ''old'')]
     [pasted ''my-icon'' ''MyIcon'' ''one'', pasted ''my_icon'' ''MyIcon'' ''two'']) = 2 \<and>
   errorCount (process_all example_env False ''svg-icon'' []
     [pasted ''my-icon'' ''MyIcon'' ''bad'', pasted ''my_icon'' ''MyIcon'' ''two'']) = 1 \<and>
   files (process_all example_env False ''svg-icon'' []
     [pasted ''my-icon'' ''MyIcon'' ''bad'', pasted ''my_icon'' ''MyIcon'' ''two''])
     = [(''MyIcon.svelte'', ''two'')]"
  by code_simp









section \<open>The merger\<close>

text \<open>
  Claim C2, amended: the merge step builds a map keyed by component name, the existing
  icons first and the incoming icons overwriting them on the same key; the keys stand
  in the order of their first occurrence. It returns the values of the map sorted
  ascending by base name in the order of \<^verbatim>\<open>localeCompare\<close>, the parameter \<open>coll\<close>, and
  entries whose base names that comparison takes for equal keep the order of the map.
  The output has no two entries with the same component name, an entry whose component
  name occurs among the incoming icons is an incoming icon, and of two entries with the
  same component name the incoming one is kept. Of the comparison the theorem needs
  that it compares any two strings and is transitive.
\<close>

theorem merge_icons_contract:
  assumes total: "\<forall>a b. coll a b \<or> coll b a"
    and trans: "\<forall>a b c. coll a b \<longrightarrow> coll b c \<longrightarrow> coll a c"
  shows "map_of (allIconsMap ex inc) =
           map_of (rev (map (\<lambda>i. (componentName i, i)) ex))
             ++ map_of (rev (map (\<lambda>i. (componentName i, i)) inc)) \<and>
         map fst (allIconsMap ex inc) = new_Set (map componentName (ex @ inc)) \<and>
         mset (merge_icons coll ex inc) = mset (map snd (allIconsMap ex inc)) \<and>
         set (merge_icons coll ex inc) = ran (map_of (allIconsMap ex inc)) \<and>
         sorted_wrt (\<lambda>a b. coll (baseName a) (baseName b)) (merge_icons coll ex inc) \<and>
         (\<forall>k. filter (\<lambda>i. coll k (baseName i) \<and> coll (baseName i) k)
                 (merge_icons coll ex inc)
               = filter (\<lambda>i. coll k (baseName i) \<and> coll (baseName i) k)
                   (map snd (allIconsMap ex inc))) \<and>
         distinct (map componentName (merge_icons coll ex inc)) \<and>
         (\<forall>j\<in>set (merge_icons coll ex inc).
            (\<exists>i\<in>set inc. componentName i = componentName j) \<longrightarrow> j \<in> set inc) \<and>
         (componentName old = componentName new \<longrightarrow> merge_icons coll [old] [new] = [new])"
proof -
  have m: "mset (merge_icons coll ex inc) = mset (map snd (allIconsMap ex inc))"
    by (simp add: merge_icons_def mset_sort_icons)
  have s: "set (merge_icons coll ex inc) = ran (map_of (allIconsMap ex inc))"
    by (simp add: merge_icons_def set_sort_icons ran_distinct allIconsMap_distinct)
  have o: "sorted_wrt (\<lambda>a b. coll (baseName a) (baseName b)) (merge_icons coll ex inc)"
    unfolding merge_icons_def by (rule sorted_sort_icons) (use total trans in blast)+
  have f: "\<forall>k. filter (\<lambda>i. coll k (baseName i) \<and> coll (baseName i) k)
                 (merge_icons coll ex inc)
               = filter (\<lambda>i. coll k (baseName i) \<and> coll (baseName i) k)
                   (map snd (allIconsMap ex inc))"
    unfolding merge_icons_def using filter_sort_icons[OF trans] by blast
  have "mset (map componentName (merge_icons coll ex inc)) = mset (map fst (allIconsMap ex inc))"
    using m allIconsMap_names[of ex inc] by (metis mset_map)
  then have d: "distinct (map componentName (merge_icons coll ex inc))"
    using allIconsMap_distinct[of ex inc] by (metis mset_eq_imp_distinct_iff)
  have w: "\<forall>j\<in>set (merge_icons coll ex inc).
            (\<exists>i\<in>set inc. componentName i = componentName j) \<longrightarrow> j \<in> set inc"
    using merge_incoming_wins by blast
  have r: "componentName old = componentName new \<longrightarrow> merge_icons coll [old] [new] = [new]"
    by (simp add: merge_icons_def allIconsMap_def set_icon_def sort_icons_def sort_stable_def)
  from map_of_allIconsMap keys_allIconsMap m s o f d w r show ?thesis by blast
qed

theorem merge_icons_contract_witness:
  "merge_icons localeCompare_le
     [\<lparr>baseName = ''old'', componentName = ''A''\<rparr>, \<lparr>baseName = ''zeta'', componentName = ''Zeta''\<rparr>]
     [\<lparr>baseName = ''new'', componentName = ''A''\<rparr>, \<lparr>baseName = ''alpha'', componentName = ''Alpha''\<rparr>]
     = [\<lparr>baseName = ''alpha'', componentName = ''Alpha''\<rparr>, \<lparr>baseName = ''new'', componentName = ''A''\<rparr>,
        \<lparr>baseName = ''zeta'', componentName = ''Zeta''\<rparr>] \<and>
   map fst (allIconsMap
     [\<lparr>baseName = ''old'', componentName = ''A''\<rparr>, \<lparr>baseName = ''zeta'', componentName = ''Zeta''\<rparr>]
     [\<lparr>baseName = ''new'', componentName = ''A''\<rparr>, \<lparr>baseName = ''alpha'', componentName = ''Alpha''\<rparr>])
     = [''A'', ''Zeta'', ''Alpha''] \<and>
   distinct (map componentName
     [\<lparr>baseName = ''alpha'', componentName = ''Alpha''\<rparr>, \<lparr>baseName = ''new'', componentName = ''A''\<rparr>,
      \<lparr>baseName = ''zeta'', componentName = ''Zeta''\<rparr>]) \<and>
   merge_icons localeCompare_le [\<lparr>baseName = ''old'', componentName = ''A''\<rparr>]
     [\<lparr>baseName = ''new'', componentName = ''A''\<rparr>] = [\<lparr>baseName = ''new'', componentName = ''A''\<rparr>]"
proof -
  let ?ex = "[\<lparr>baseName = ''old'', componentName = ''A''\<rparr>, \<lparr>baseName = ''zeta'', componentName = ''Zeta''\<rparr>]"
  let ?inc = "[\<lparr>baseName = ''new'', componentName = ''A''\<rparr>, \<lparr>baseName = ''alpha'', componentName = ''Alpha''\<rparr>]"
  have e: "merge_icons localeCompare_le ?ex ?inc
     = [\<lparr>baseName = ''alpha'', componentName = ''Alpha''\<rparr>, \<lparr>baseName = ''new'', componentName = ''A''\<rparr>,
        \<lparr>baseName = ''zeta'', componentName = ''Zeta''\<rparr>]"
    by code_simp
  have k: "new_Set (map componentName (?ex @ ?inc)) = [''A'', ''Zeta'', ''Alpha'']"
    by code_simp
  have t: "\<forall>a b. localeCompare_le a b \<or> localeCompare_le b a"
    using localeCompare_le_total by blast
  have r: "\<forall>a b c. localeCompare_le a b \<longrightarrow> localeCompare_le b c \<longrightarrow> localeCompare_le a c"
    using localeCompare_le_trans by blast
  have n: "componentName \<lparr>baseName = ''old'', componentName = ''A''\<rparr>
             = componentName \<lparr>baseName = ''new'', componentName = ''A''\<rparr>"
    by simp
  from merge_icons_contract[of localeCompare_le ?ex ?inc "\<lparr>baseName = ''old'', componentName = ''A''\<rparr>"
      "\<lparr>baseName = ''new'', componentName = ''A''\<rparr>", OF t r]
  have "map fst (allIconsMap ?ex ?inc) = new_Set (map componentName (?ex @ ?inc)) \<and>
        distinct (map componentName (merge_icons localeCompare_le ?ex ?inc)) \<and>
        merge_icons localeCompare_le [\<lparr>baseName = ''old'', componentName = ''A''\<rparr>]
          [\<lparr>baseName = ''new'', componentName = ''A''\<rparr>] = [\<lparr>baseName = ''new'', componentName = ''A''\<rparr>]"
    using n by blast
  then show ?thesis unfolding e k by simp
qed

text \<open>
  Claim C2, as stated, fails: the order is that of \<^verbatim>\<open>localeCompare\<close>, not the ordinal
  one. The files \<^verbatim>\<open>a1.svg\<close>, \<^verbatim>\<open>a-b.svg\<close> and \<^verbatim>\<open>a_c.svg\<close> give the base names
  \<^verbatim>\<open>a1\<close>, \<^verbatim>\<open>a-b\<close> and \<^verbatim>\<open>a_c\<close>; the merge returns them as \<^verbatim>\<open>a_c\<close>, \<^verbatim>\<open>a-b\<close>, \<^verbatim>\<open>a1\<close>,
  which is not ascending code unit by code unit, where the hyphen comes before the
  digits and the digits before the underscore.
\<close>

theorem merge_icons_ordinal_counterexample:
  "merge_icons localeCompare_le
     [\<lparr>baseName = ''a1'', componentName = ''A1''\<rparr>]
     [\<lparr>baseName = ''a-b'', componentName = ''AB''\<rparr>, \<lparr>baseName = ''a_c'', componentName = ''AC''\<rparr>]
     = [\<lparr>baseName = ''a_c'', componentName = ''AC''\<rparr>, \<lparr>baseName = ''a-b'', componentName = ''AB''\<rparr>,
        \<lparr>baseName = ''a1'', componentName = ''A1''\<rparr>] \<and>
   \<not> sorted_wrt (\<lambda>a b. code_unit_le (baseName a) (baseName b))
     (merge_icons localeCompare_le
        [\<lparr>baseName = ''a1'', componentName = ''A1''\<rparr>]
        [\<lparr>baseName = ''a-b'', componentName = ''AB''\<rparr>, \<lparr>baseName = ''a_c'', componentName = ''AC''\<rparr>]) \<and>
   \<not> sorted_wrt (\<lambda>a b. code_unit_le (toLowerCase (baseName a)) (toLowerCase (baseName b)))
     (merge_icons localeCompare_le
        [\<lparr>baseName = ''a1'', componentName = ''A1''\<rparr>]
        [\<lparr>baseName = ''a-b'', componentName = ''AB''\<rparr>, \<lparr>baseName = ''a_c'', componentName = ''AC''\<rparr>]) \<and>
   sanitizeName ''a1.svg'' = Some \<lparr>baseName = ''a1'', componentName = ''A1''\<rparr> \<and>
   sanitizeName ''a-b.svg'' = Some \<lparr>baseName = ''a-b'', componentName = ''AB''\<rparr> \<and>
   sanitizeName ''a_c.svg'' = Some \<lparr>baseName = ''a_c'', componentName = ''AC''\<rparr>"
  by code_simp




section \<open>The type artifact\<close>

lemma sort_icons_permutation:
  assumes total: "\<forall>a b. coll a b \<or> coll b a"
    and trans: "\<forall>a b c. coll a b \<longrightarrow> coll b c \<longrightarrow> coll a c"
    and sep: "\<forall>a\<in>set xs. \<forall>b\<in>set xs.
               coll (baseName a) (baseName b) \<longrightarrow> coll (baseName b) (baseName a) \<longrightarrow> a = b"
    and perm: "mset xs = mset ys"
  shows "sort_icons coll xs = sort_icons coll ys"
  unfolding sort_icons_def
proof (rule sort_stable_permutation)
  show "mset xs = mset ys" by (rule perm)
  show "\<And>a b. coll (baseName a) (baseName b) \<or> coll (baseName b) (baseName a)"
    using total by blast
  show "\<And>a b c. coll (baseName a) (baseName b) \<Longrightarrow> coll (baseName b) (baseName c) \<Longrightarrow>
          coll (baseName a) (baseName c)"
    using trans by blast
  show "\<And>a b. a \<in> set xs \<Longrightarrow> b \<in> set xs \<Longrightarrow> coll (baseName a) (baseName b) \<Longrightarrow>
          coll (baseName b) (baseName a) \<Longrightarrow> a = b"
    using sep by blast
qed

lemma uniqueIconBaseNames_props:
  "sorted_wrt code_unit_le (uniqueIconBaseNames xs) \<and> distinct (uniqueIconBaseNames xs) \<and>
   set (uniqueIconBaseNames xs) = baseName ` set xs"
proof -
  have "sorted_wrt code_unit_le (uniqueIconBaseNames xs)"
    unfolding uniqueIconBaseNames_def
    by (rule sorted_sort_stable) (use code_unit_le_total code_unit_le_trans in blast)+
  moreover have "distinct (uniqueIconBaseNames xs)"
    using mset_sort_stable[of code_unit_le "new_Set (map baseName xs)"] distinct_new_Set
    unfolding uniqueIconBaseNames_def by (metis mset_eq_imp_distinct_iff)
  moreover have "set (uniqueIconBaseNames xs) = baseName ` set xs"
    by (simp add: uniqueIconBaseNames_def set_sort_stable set_new_Set)
  ultimately show ?thesis by blast
qed

lemma uniqueIconBaseNames_nonempty: "xs \<noteq> [] \<Longrightarrow> uniqueIconBaseNames xs \<noteq> []"
  using uniqueIconBaseNames_props[of xs] by (metis image_is_empty set_empty)

lemma typeContent_text:
  assumes ne: "icons \<noteq> []"
  shows "typeContent header icons =
     header @ ''export type SvgName = ''
       @ concat (map (\<lambda>b. [CHR 0x0A] @ ''  | '' @ [CHR 0x27] @ b @ [CHR 0x27])
                   (uniqueIconBaseNames icons))
       @ '';'' @ [CHR 0x0A, CHR 0x0A]
       @ ''export const iconMap: Record<SvgName, string> = {''
       @ concat (map (\<lambda>i. [CHR 0x0A] @ ''  '' @ [CHR 0x27] @ baseName i @ [CHR 0x27] @ '': ''
                          @ [CHR 0x27] @ componentName i @ [CHR 0x27] @ '','') icons)
       @ [CHR 0x0A] @ ''};'' @ [CHR 0x0A]"
proof -
  let ?A = "[CHR 0x0A] @ ''  | '' @ [CHR 0x27]"
  let ?B = "[CHR 0x27]"
  have u: "?A @ join (?B @ ?A) (uniqueIconBaseNames icons) @ ?B
             = concat (map (\<lambda>b. ?A @ b @ ?B) (uniqueIconBaseNames icons))"
    by (rule join_concat) (rule uniqueIconBaseNames_nonempty[OF ne])
  have m: "map iconMapLine icons \<noteq> []" using ne by simp
  have l: "[CHR 0x0A] @ join ([] @ [CHR 0x0A]) (map iconMapLine icons) @ []
             = concat (map (\<lambda>b. [CHR 0x0A] @ b @ []) (map iconMapLine icons))"
    by (rule join_concat) (rule m)
  have l': "[CHR 0x0A] @ join [CHR 0x0A] (map iconMapLine icons)
             = concat (map (\<lambda>i. [CHR 0x0A] @ ''  '' @ [CHR 0x27] @ baseName i @ [CHR 0x27] @ '': ''
                          @ [CHR 0x27] @ componentName i @ [CHR 0x27] @ '','') icons)"
    using l by (simp add: comp_def iconMapLine_def quote_def)
  have u': "[CHR 0x0A] @ ''  | '' @ [CHR 0x27] @ join ([CHR 0x27] @ [CHR 0x0A] @ ''  | '' @ [CHR 0x27])
               (uniqueIconBaseNames icons) @ [CHR 0x27]
             = concat (map (\<lambda>b. [CHR 0x0A] @ ''  | '' @ [CHR 0x27] @ b @ [CHR 0x27])
                   (uniqueIconBaseNames icons))"
    using u by simp
  have "typeContent header icons =
     header @ ''export type SvgName = ''
       @ ([CHR 0x0A] @ ''  | '' @ [CHR 0x27] @ join ([CHR 0x27] @ [CHR 0x0A] @ ''  | '' @ [CHR 0x27])
               (uniqueIconBaseNames icons) @ [CHR 0x27])
       @ '';'' @ [CHR 0x0A, CHR 0x0A]
       @ ''export const iconMap: Record<SvgName, string> = {''
       @ ([CHR 0x0A] @ join [CHR 0x0A] (map iconMapLine icons))
       @ [CHR 0x0A] @ ''};'' @ [CHR 0x0A]"
    by (simp add: typeContent_def iconMapContent_def nl_def quote_def)
  then show ?thesis unfolding u' l' .
qed


lemma sort_stable_sorted: "sorted_wrt le xs \<Longrightarrow> sort_stable le xs = xs"
proof (induction xs)
  case Nil
  show ?case by (simp add: sort_stable_def)
next
  case (Cons x xs)
  then have i: "sort_stable le xs = xs" and h: "\<forall>y\<in>set xs. le x y" by simp_all
  have "sort_stable le (x # xs) = insert_sorted le x (sort_stable le xs)"
    by (simp add: sort_stable_def)
  also have "\<dots> = x # xs" unfolding i using h by (cases xs) simp_all
  finally show ?case .
qed

lemma sort_icons_idem:
  assumes total: "\<forall>a b. coll a b \<or> coll b a"
    and trans: "\<forall>a b c. coll a b \<longrightarrow> coll b c \<longrightarrow> coll a c"
  shows "sort_icons coll (sort_icons coll xs) = sort_icons coll xs"
proof -
  have "sorted_wrt (\<lambda>a b. coll (baseName a) (baseName b)) (sort_icons coll xs)"
    by (rule sorted_sort_icons) (use total trans in blast)+
  then show ?thesis
    using sort_stable_sorted[of "\<lambda>a b. coll (baseName a) (baseName b)" "sort_icons coll xs"]
    by (simp add: sort_icons_def)
qed

text \<open>
  Claim C7, amended: the text of the type artifact is determined by the sequence of
  identities supplied. After the comment lines and \<^verbatim>\<open>export type SvgName =\<close> it has one
  line \<^verbatim>\<open>| 'baseName'\<close> for each base name, the base names without duplicates and
  ascending code unit by code unit; then, inside the \<^verbatim>\<open>iconMap\<close> literal, one line
  \<^verbatim>\<open>'baseName': 'componentName',\<close> for every identity, ascending by base name in the
  order of \<^verbatim>\<open>localeCompare\<close>, where identities whose base names that comparison takes
  for equal stand in the order in which they were supplied. Sorting the sorted
  sequence again changes nothing. Any permutation of the same identities yields the
  same text provided that no two different identities among them have base names that
  compare equal, in particular the same base name. Of the comparison the theorem
  needs that it compares any two strings and is transitive.
\<close>

theorem typeContent_order_independent:
  assumes total: "\<forall>a b. coll a b \<or> coll b a"
    and trans: "\<forall>a b c. coll a b \<longrightarrow> coll b c \<longrightarrow> coll a c"
  shows "(xs \<noteq> [] \<longrightarrow>
           typeContent header (sort_icons coll xs) =
             header @ ''export type SvgName = ''
               @ concat (map (\<lambda>b. [CHR 0x0A] @ ''  | '' @ [CHR 0x27] @ b @ [CHR 0x27])
                           (uniqueIconBaseNames (sort_icons coll xs)))
               @ '';'' @ [CHR 0x0A, CHR 0x0A]
               @ ''export const iconMap: Record<SvgName, string> = {''
               @ concat (map (\<lambda>i. [CHR 0x0A] @ ''  '' @ [CHR 0x27] @ baseName i @ [CHR 0x27]
                                  @ '': '' @ [CHR 0x27] @ componentName i @ [CHR 0x27] @ '','')
                           (sort_icons coll xs))
               @ [CHR 0x0A] @ ''};'' @ [CHR 0x0A]) \<and>
         sorted_wrt code_unit_le (uniqueIconBaseNames (sort_icons coll xs)) \<and>
         distinct (uniqueIconBaseNames (sort_icons coll xs)) \<and>
         set (uniqueIconBaseNames (sort_icons coll xs)) = baseName ` set xs \<and>
         mset (sort_icons coll xs) = mset xs \<and>
         sorted_wrt (\<lambda>a b. coll (baseName a) (baseName b)) (sort_icons coll xs) \<and>
         (\<forall>k. filter (\<lambda>i. coll k (baseName i) \<and> coll (baseName i) k) (sort_icons coll xs)
               = filter (\<lambda>i. coll k (baseName i) \<and> coll (baseName i) k) xs) \<and>
         sort_icons coll (sort_icons coll xs) = sort_icons coll xs \<and>
         ((\<forall>a\<in>set xs. \<forall>b\<in>set xs.
              coll (baseName a) (baseName b) \<longrightarrow> coll (baseName b) (baseName a) \<longrightarrow> a = b)
            \<and> mset xs = mset ys
          \<longrightarrow> typeContent header (sort_icons coll xs) = typeContent header (sort_icons coll ys))"
proof -
  have f: "xs \<noteq> [] \<longrightarrow>
           typeContent header (sort_icons coll xs) =
             header @ ''export type SvgName = ''
               @ concat (map (\<lambda>b. [CHR 0x0A] @ ''  | '' @ [CHR 0x27] @ b @ [CHR 0x27])
                           (uniqueIconBaseNames (sort_icons coll xs)))
               @ '';'' @ [CHR 0x0A, CHR 0x0A]
               @ ''export const iconMap: Record<SvgName, string> = {''
               @ concat (map (\<lambda>i. [CHR 0x0A] @ ''  '' @ [CHR 0x27] @ baseName i @ [CHR 0x27]
                                  @ '': '' @ [CHR 0x27] @ componentName i @ [CHR 0x27] @ '','')
                           (sort_icons coll xs))
               @ [CHR 0x0A] @ ''};'' @ [CHR 0x0A]"
  proof
    assume "xs \<noteq> []"
    then have "sort_icons coll xs \<noteq> []"
      using set_sort_icons[of coll xs] by (metis set_empty)
    then show "typeContent header (sort_icons coll xs) =
             header @ ''export type SvgName = ''
               @ concat (map (\<lambda>b. [CHR 0x0A] @ ''  | '' @ [CHR 0x27] @ b @ [CHR 0x27])
                           (uniqueIconBaseNames (sort_icons coll xs)))
               @ '';'' @ [CHR 0x0A, CHR 0x0A]
               @ ''export const iconMap: Record<SvgName, string> = {''
               @ concat (map (\<lambda>i. [CHR 0x0A] @ ''  '' @ [CHR 0x27] @ baseName i @ [CHR 0x27]
                                  @ '': '' @ [CHR 0x27] @ componentName i @ [CHR 0x27] @ '','')
                           (sort_icons coll xs))
               @ [CHR 0x0A] @ ''};'' @ [CHR 0x0A]"
      by (rule typeContent_text)
  qed
  have u: "sorted_wrt code_unit_le (uniqueIconBaseNames (sort_icons coll xs)) \<and>
           distinct (uniqueIconBaseNames (sort_icons coll xs)) \<and>
           set (uniqueIconBaseNames (sort_icons coll xs)) = baseName ` set xs"
    using uniqueIconBaseNames_props[of "sort_icons coll xs"] by (simp add: set_sort_icons)
  have m: "mset (sort_icons coll xs) = mset xs" by (rule mset_sort_icons)
  have o: "sorted_wrt (\<lambda>a b. coll (baseName a) (baseName b)) (sort_icons coll xs)"
    by (rule sorted_sort_icons) (use total trans in blast)+
  have s: "\<forall>k. filter (\<lambda>i. coll k (baseName i) \<and> coll (baseName i) k) (sort_icons coll xs)
               = filter (\<lambda>i. coll k (baseName i) \<and> coll (baseName i) k) xs"
    using filter_sort_icons[OF trans] by blast
  have i: "sort_icons coll (sort_icons coll xs) = sort_icons coll xs"
    by (rule sort_icons_idem[OF total trans])
  have p: "(\<forall>a\<in>set xs. \<forall>b\<in>set xs.
              coll (baseName a) (baseName b) \<longrightarrow> coll (baseName b) (baseName a) \<longrightarrow> a = b)
            \<and> mset xs = mset ys
          \<longrightarrow> typeContent header (sort_icons coll xs) = typeContent header (sort_icons coll ys)"
  proof
    assume h: "(\<forall>a\<in>set xs. \<forall>b\<in>set xs.
              coll (baseName a) (baseName b) \<longrightarrow> coll (baseName b) (baseName a) \<longrightarrow> a = b)
            \<and> mset xs = mset ys"
    have "sort_icons coll xs = sort_icons coll ys"
      by (rule sort_icons_permutation[OF total trans]) (use h in blast)+
    then show "typeContent header (sort_icons coll xs) = typeContent header (sort_icons coll ys)"
      by simp
  qed
  from f u m o s i p show ?thesis by blast
qed

theorem typeContent_order_independent_witness:
  "typeContent header_bin (sort_icons localeCompare_le
     [\<lparr>baseName = ''logo-main'', componentName = ''LogoMain''\<rparr>,
      \<lparr>baseName = ''arrow-left'', componentName = ''ArrowLeft''\<rparr>,
      \<lparr>baseName = ''close'', componentName = ''Close''\<rparr>])
   = ''// Auto-generated by svelte-svg-gen'' @ [CHR 0x0A]
     @ ''// Run npx svelte-svg-gen -r to regenerate.'' @ [CHR 0x0A]
     @ [CHR 0x0A]
     @ ''export type SvgName = '' @ [CHR 0x0A]
     @ ''  | '' @ [CHR 0x27] @ ''arrow-left'' @ [CHR 0x27] @ [CHR 0x0A]
     @ ''  | '' @ [CHR 0x27] @ ''close'' @ [CHR 0x27] @ [CHR 0x0A]
     @ ''  | '' @ [CHR 0x27] @ ''logo-main'' @ [CHR 0x27] @ '';'' @ [CHR 0x0A]
     @ [CHR 0x0A]
     @ ''export const iconMap: Record<SvgName, string> = {'' @ [CHR 0x0A]
     @ ''  '' @ [CHR 0x27] @ ''arrow-left'' @ [CHR 0x27] @ '': '' @ [CHR 0x27] @ ''ArrowLeft'' @ [CHR 0x27] @ '','' @ [CHR 0x0A]
     @ ''  '' @ [CHR 0x27] @ ''close'' @ [CHR 0x27] @ '': '' @ [CHR 0x27] @ ''Close'' @ [CHR 0x27] @ '','' @ [CHR 0x0A]
     @ ''  '' @ [CHR 0x27] @ ''logo-main'' @ [CHR 0x27] @ '': '' @ [CHR 0x27] @ ''LogoMain'' @ [CHR 0x27] @ '','' @ [CHR 0x0A]
     @ ''};'' @ [CHR 0x0A] \<and>
   typeContent header_bin (sort_icons localeCompare_le
     [\<lparr>baseName = ''logo-main'', componentName = ''LogoMain''\<rparr>,
      \<lparr>baseName = ''arrow-left'', componentName = ''ArrowLeft''\<rparr>,
      \<lparr>baseName = ''close'', componentName = ''Close''\<rparr>])
   = typeContent header_bin (sort_icons localeCompare_le
     [\<lparr>baseName = ''close'', componentName = ''Close''\<rparr>,
      \<lparr>baseName = ''logo-main'', componentName = ''LogoMain''\<rparr>,
      \<lparr>baseName = ''arrow-left'', componentName = ''ArrowLeft''\<rparr>])"
proof -
  let ?xs = "[\<lparr>baseName = ''logo-main'', componentName = ''LogoMain''\<rparr>,
      \<lparr>baseName = ''arrow-left'', componentName = ''ArrowLeft''\<rparr>,
      \<lparr>baseName = ''close'', componentName = ''Close''\<rparr>]"
  let ?ys = "[\<lparr>baseName = ''close'', componentName = ''Close''\<rparr>,
      \<lparr>baseName = ''logo-main'', componentName = ''LogoMain''\<rparr>,
      \<lparr>baseName = ''arrow-left'', componentName = ''ArrowLeft''\<rparr>]"
  let ?S = "[\<lparr>baseName = ''arrow-left'', componentName = ''ArrowLeft''\<rparr>,
      \<lparr>baseName = ''close'', componentName = ''Close''\<rparr>,
      \<lparr>baseName = ''logo-main'', componentName = ''LogoMain''\<rparr>]"
  have e: "sort_icons localeCompare_le ?xs = ?S" by code_simp
  have u: "uniqueIconBaseNames ?S = [''arrow-left'', ''close'', ''logo-main'']" by code_simp
  have n: "?xs \<noteq> []" by simp
  have d: "\<forall>a\<in>set ?xs. \<forall>b\<in>set ?xs.
             localeCompare_le (baseName a) (baseName b) \<longrightarrow> localeCompare_le (baseName b) (baseName a)
               \<longrightarrow> a = b"
    by code_simp
  have p: "mset ?xs = mset ?ys" by simp
  have t: "\<forall>a b. localeCompare_le a b \<or> localeCompare_le b a"
    using localeCompare_le_total by blast
  have r: "\<forall>a b c. localeCompare_le a b \<longrightarrow> localeCompare_le b c \<longrightarrow> localeCompare_le a c"
    using localeCompare_le_trans by blast
  note main = typeContent_order_independent[of localeCompare_le ?xs header_bin ?ys, OF t r]
  from main n have "typeContent header_bin (sort_icons localeCompare_le ?xs) =
             header_bin @ ''export type SvgName = ''
               @ concat (map (\<lambda>b. [CHR 0x0A] @ ''  | '' @ [CHR 0x27] @ b @ [CHR 0x27])
                           (uniqueIconBaseNames (sort_icons localeCompare_le ?xs)))
               @ '';'' @ [CHR 0x0A, CHR 0x0A]
               @ ''export const iconMap: Record<SvgName, string> = {''
               @ concat (map (\<lambda>i. [CHR 0x0A] @ ''  '' @ [CHR 0x27] @ baseName i @ [CHR 0x27]
                                  @ '': '' @ [CHR 0x27] @ componentName i @ [CHR 0x27] @ '','')
                           (sort_icons localeCompare_le ?xs))
               @ [CHR 0x0A] @ ''};'' @ [CHR 0x0A]"
    by blast
  then have a: "typeContent header_bin (sort_icons localeCompare_le ?xs)
   = ''// Auto-generated by svelte-svg-gen'' @ [CHR 0x0A]
     @ ''// Run npx svelte-svg-gen -r to regenerate.'' @ [CHR 0x0A]
     @ [CHR 0x0A]
     @ ''export type SvgName = '' @ [CHR 0x0A]
     @ ''  | '' @ [CHR 0x27] @ ''arrow-left'' @ [CHR 0x27] @ [CHR 0x0A]
     @ ''  | '' @ [CHR 0x27] @ ''close'' @ [CHR 0x27] @ [CHR 0x0A]
     @ ''  | '' @ [CHR 0x27] @ ''logo-main'' @ [CHR 0x27] @ '';'' @ [CHR 0x0A]
     @ [CHR 0x0A]
     @ ''export const iconMap: Record<SvgName, string> = {'' @ [CHR 0x0A]
     @ ''  '' @ [CHR 0x27] @ ''arrow-left'' @ [CHR 0x27] @ '': '' @ [CHR 0x27] @ ''ArrowLeft'' @ [CHR 0x27] @ '','' @ [CHR 0x0A]
     @ ''  '' @ [CHR 0x27] @ ''close'' @ [CHR 0x27] @ '': '' @ [CHR 0x27] @ ''Close'' @ [CHR 0x27] @ '','' @ [CHR 0x0A]
     @ ''  '' @ [CHR 0x27] @ ''logo-main'' @ [CHR 0x27] @ '': '' @ [CHR 0x27] @ ''LogoMain'' @ [CHR 0x27] @ '','' @ [CHR 0x0A]
     @ ''};'' @ [CHR 0x0A]"
    unfolding e u by (simp add: header_bin_def nl_def)
  from main d p have b: "typeContent header_bin (sort_icons localeCompare_le ?xs)
      = typeContent header_bin (sort_icons localeCompare_le ?ys)"
    by blast
  from a b show ?thesis by blast
qed

text \<open>
  Claim C7, as stated, fails: the files \<^verbatim>\<open>AB.svelte\<close> and \<^verbatim>\<open>aB.svelte\<close> are scanned to two
  identities with the base name \<^verbatim>\<open>a-b\<close>; the stable sort keeps them in the order in
  which they are supplied, and the two orders give different texts.
\<close>

theorem typeContent_order_counterexample:
  "getCurrentIconsFromComponents (Entries [''AB.svelte'', ''aB.svelte''])
     = [\<lparr>baseName = ''a-b'', componentName = ''AB''\<rparr>, \<lparr>baseName = ''a-b'', componentName = ''aB''\<rparr>] \<and>
   typeContent header_bin (sort_icons code_unit_le
     [\<lparr>baseName = ''a-b'', componentName = ''AB''\<rparr>, \<lparr>baseName = ''a-b'', componentName = ''aB''\<rparr>])
   \<noteq> typeContent header_bin (sort_icons code_unit_le
     [\<lparr>baseName = ''a-b'', componentName = ''aB''\<rparr>, \<lparr>baseName = ''a-b'', componentName = ''AB''\<rparr>])"
  by code_simp

end
